theory Spec2Isabelle
  imports Complex_Main
begin

section \<open>JavaScript values\<close>

text \<open>
  The two components handle untyped run-time values: the result of \<^verbatim>\<open>JSON.parse\<close> is
  \<^verbatim>\<open>any\<close>, and the object literal built from it is only annotated as an account. A
  value is therefore modelled as it exists at run time. A string is a list of code units
  (those below 256); a number is the real it denotes (\<^verbatim>\<open>-0\<close> is \<open>0\<close>; \<^verbatim>\<open>NaN\<close> and the
  infinities do not occur, and no handler computes with a number). An object is the list
  of its own properties in insertion order.
\<close>

datatype jsval =
    JUndefined
  | JNull
  | JBool bool
  | JNum real
  | JStr string
  | JArr "jsval list"
  | JObj "(string \<times> jsval) list"

datatype jstype = TUndefined | TObject | TBoolean | TNumber | TString

text \<open>\<^verbatim>\<open>typeof v\<close>; \<^verbatim>\<open>typeof null\<close> is \<^verbatim>\<open>"object"\<close>.\<close>

fun typeof :: "jsval \<Rightarrow> jstype" where
  "typeof JUndefined = TUndefined"
| "typeof JNull = TObject"
| "typeof (JBool b) = TBoolean"
| "typeof (JNum n) = TNumber"
| "typeof (JStr s) = TString"
| "typeof (JArr xs) = TObject"
| "typeof (JObj kvs) = TObject"

text \<open>Truthiness, as \<^verbatim>\<open>!v\<close> and \<^verbatim>\<open>a && b\<close> read it.\<close>

fun truthy :: "jsval \<Rightarrow> bool" where
  "truthy JUndefined = False"
| "truthy JNull = False"
| "truthy (JBool b) = b"
| "truthy (JNum n) = (n \<noteq> 0)"
| "truthy (JStr s) = (s \<noteq> [])"
| "truthy (JArr xs) = True"
| "truthy (JObj kvs) = True"

definition nullish :: "jsval \<Rightarrow> bool" where
  "nullish v = (v = JUndefined \<or> v = JNull)"

text \<open>\<^verbatim>\<open>v ?? d\<close>.\<close>

definition coalesce :: "jsval \<Rightarrow> jsval \<Rightarrow> jsval" where
  "coalesce v d = (if nullish v then d else v)"

text \<open>\<^verbatim>\<open>Array.isArray(v)\<close>.\<close>

fun isArray :: "jsval \<Rightarrow> bool" where
  "isArray (JArr xs) = True"
| "isArray v = False"

text \<open>
  \<^verbatim>\<open>v.k\<close> for a value that is neither \<^verbatim>\<open>null\<close> nor \<^verbatim>\<open>undefined\<close> (on those the access
  throws, which the handlers below test before they read), and for a key that no
  prototype defines, as is the case for the eleven account keys: an own property of an
  object, \<^verbatim>\<open>undefined\<close> otherwise.
\<close>

fun getProp :: "jsval \<Rightarrow> string \<Rightarrow> jsval" where
  "getProp (JObj kvs) k = (case map_of kvs k of None \<Rightarrow> JUndefined | Some v \<Rightarrow> v)"
| "getProp v k = JUndefined"

text \<open>The string a value holds; the handlers call it on validated strings only.\<close>

fun strOf :: "jsval \<Rightarrow> string" where
  "strOf (JStr s) = s"
| "strOf v = []"

text \<open>
  \<^verbatim>\<open>String.prototype.trim\<close> strips white space and line terminators from both ends; among
  the code units below 256 these are TAB, LF, VT, FF, CR, SPACE and NBSP.
\<close>

definition isWhiteSpace :: "char \<Rightarrow> bool" where
  "isWhiteSpace c = ((of_char c :: nat) \<in> {9, 10, 11, 12, 13, 32, 160})"

definition trim :: "string \<Rightarrow> string" where
  "trim s = rev (dropWhile isWhiteSpace (rev (dropWhile isWhiteSpace s)))"

text \<open>
  What a JSON text written by \<^verbatim>\<open>JSON.stringify\<close> denotes: a property whose value is
  \<^verbatim>\<open>undefined\<close> is left out of an object, and an \<^verbatim>\<open>undefined\<close> array element is written
  as \<^verbatim>\<open>null\<close>.
\<close>

primrec json_image :: "jsval \<Rightarrow> jsval" where
  "json_image JUndefined = JUndefined"
| "json_image JNull = JNull"
| "json_image (JBool b) = JBool b"
| "json_image (JNum n) = JNum n"
| "json_image (JStr s) = JStr s"
| "json_image (JArr xs) =
     JArr (map (\<lambda>v. if v = JUndefined then JNull else v) (map json_image xs))"
| "json_image (JObj kvs) =
     JObj (filter (\<lambda>kv. snd kv \<noteq> JUndefined) (map (map_prod id json_image) kvs))"

section \<open>Thrown values\<close>

text \<open>
  Modelled from the spec: the class \<^verbatim>\<open>AuthenticationError\<close> is declared in the module
  \<^verbatim>\<open>apple/authenticate\<close>, which the detail view imports; the spec gives it a
  human-readable message and a \<^verbatim>\<open>codeRequired\<close> flag, and it is taken to extend
  \<^verbatim>\<open>Error\<close>. The other constructors are the built-in errors the handlers can
  catch, and \<open>NonError\<close> is a thrown value that is no instance of \<^verbatim>\<open>Error\<close>.
\<close>

datatype js_exn =
    AuthenticationError string bool
  | SyntaxError string
  | TypeError string
  | URIError string
  | OtherError string
  | NonError jsval

fun isError :: "js_exn \<Rightarrow> bool" where
  "isError (NonError v) = False"
| "isError e = True"

fun message :: "js_exn \<Rightarrow> string" where
  "message (AuthenticationError m c) = m"
| "message (SyntaxError m) = m"
| "message (TypeError m) = m"
| "message (URIError m) = m"
| "message (OtherError m) = m"
| "message (NonError v) = []"

text \<open>\<^verbatim>\<open>err instanceof AuthenticationError && err.codeRequired\<close>.\<close>

fun codeRequiredError :: "js_exn \<Rightarrow> bool" where
  "codeRequiredError (AuthenticationError m c) = c"
| "codeRequiredError e = False"

text \<open>An awaited call either resolves with a value or rejects with a thrown value.\<close>

type_synonym 'a settled = "js_exn + 'a"

section \<open>Accounts and the calls to collaborators\<close>

text \<open>
  Modelled from the spec: the interface \<^verbatim>\<open>Account\<close> is declared in the module
  \<^verbatim>\<open>types\<close>, which the list view imports. Its eleven fields are those of the spec's data
  model, which are also the eleven properties of the object literal in \<^verbatim>\<open>handleImport\<close>. The annotation is not
  checked at run time (an imported record takes its optional fields from the clipboard
  unvalidated), so every field holds a run-time value.
\<close>

record Account =
  email :: jsval
  password :: jsval
  appleId :: jsval
  store :: jsval
  firstName :: jsval
  lastName :: jsval
  passwordToken :: jsval
  directoryServicesIdentifier :: jsval
  cookies :: jsval
  deviceIdentifier :: jsval
  pod :: jsval

text \<open>
  The account as the object \<^verbatim>\<open>JSON.stringify\<close> walks. The walk follows the order in
  which the stored object got its properties; it is taken to be the order of the object
  literal of \<^verbatim>\<open>handleImport\<close>, which is how an imported account is built.
\<close>

definition account_obj :: "Account \<Rightarrow> jsval" where
  "account_obj a = JObj
     [(''email'', email a),
      (''password'', password a),
      (''appleId'', appleId a),
      (''store'', store a),
      (''firstName'', firstName a),
      (''lastName'', lastName a),
      (''passwordToken'', passwordToken a),
      (''directoryServicesIdentifier'', directoryServicesIdentifier a),
      (''cookies'', cookies a),
      (''deviceIdentifier'', deviceIdentifier a),
      (''pod'', pod a)]"

text \<open>
  Every call a handler makes to the account store, the authenticator, the clipboard or
  the router is recorded, in order. \<open>Authenticate\<close> carries the five arguments (email,
  password, code, cookies, device identifier).
\<close>

datatype call =
    Authenticate jsval jsval jsval jsval jsval
  | UpdateAccount Account
  | RemoveAccount jsval
  | AddAccount Account
  | ReadText
  | WriteText string
  | Navigate string

fun storeMutation :: "call \<Rightarrow> bool" where
  "storeMutation (UpdateAccount a) = True"
| "storeMutation (RemoveAccount e) = True"
| "storeMutation (AddAccount a) = True"
| "storeMutation c = False"

text \<open>
  The built-ins of the platform that the handlers call and whose definition is no part
  of the repository: \<^verbatim>\<open>JSON.parse\<close> (\<open>None\<close> when it throws a \<^verbatim>\<open>SyntaxError\<close>),
  \<^verbatim>\<open>JSON.stringify(v, null, 2)\<close>, \<^verbatim>\<open>encodeURIComponent\<close> (\<open>None\<close> when it throws a
  \<^verbatim>\<open>URIError\<close>, which it does on a string that holds a lone surrogate), the message of
  that \<^verbatim>\<open>URIError\<close>, and the message of the \<^verbatim>\<open>TypeError\<close> an engine throws when a
  property of \<^verbatim>\<open>null\<close> is read (each engine words its messages differently).
\<close>

record platform =
  JSON_parse :: "string \<Rightarrow> jsval option"
  JSON_stringify :: "jsval \<Rightarrow> string"
  encodeURIComponent :: "string \<Rightarrow> string option"
  uriErrorMessage :: string
  nullAccessMessage :: "string \<Rightarrow> string"

section \<open>The account detail view\<close>

text \<open>
  A handler is a function of the state the view is in when the handler is triggered. The
  collaborators it awaits are parameters that give the settled result of the call, and
  the handler returns the state after its last state update together with the calls it
  made, in order.
\<close>

record banners =
  error :: "string option"
  success :: "string option"

record DetailState = banners +
  showDelete :: bool
  reauthing :: bool
  reauthCode :: string
  needsCode :: bool
  exporting :: bool

text \<open>The \<^verbatim>\<open>useState\<close> initial values.\<close>

definition initialDetail :: DetailState where
  "initialDetail = \<lparr>error = None, success = None, showDelete = False, reauthing = False,
     reauthCode = [], needsCode = False, exporting = False\<rparr>"

text \<open>
  \<^verbatim>\<open>accounts.find((a) => a.email === decodedEmail)\<close>, where \<open>d\<close> is the decoded
  route parameter.
\<close>

definition findAccount :: "Account list \<Rightarrow> string \<Rightarrow> Account option" where
  "findAccount accounts d = List.find (\<lambda>a. email a = JStr d) accounts"

subsection \<open>Re-authentication\<close>

text \<open>The \<^verbatim>\<open>catch\<close> block of \<^verbatim>\<open>handleReauth\<close>.\<close>

definition reauthCatch :: "js_exn \<Rightarrow> DetailState \<Rightarrow> DetailState" where
  "reauthCatch err st =
     (if codeRequiredError err
      then st\<lparr>needsCode := True, error := Some (message err)\<rparr>
      else st\<lparr>error := Some (if isError err then message err
                              else ''Re-authentication failed'')\<rparr>)"

text \<open>The code argument: \<^verbatim>\<open>needsCode && reauthCode ? reauthCode : undefined\<close>.\<close>

definition codeArgument :: "DetailState \<Rightarrow> jsval" where
  "codeArgument st =
     (if needsCode st \<and> reauthCode st \<noteq> [] then JStr (reauthCode st) else JUndefined)"

text \<open>
  \<^verbatim>\<open>handleReauth\<close>, run from the state \<open>st\<close> the handler closed over. The two awaited
  collaborators are parameters. The result is the state once the handler has finished
  (the \<^verbatim>\<open>finally\<close> block included) and the calls it made.
\<close>

definition handleReauth ::
  "(jsval \<Rightarrow> jsval \<Rightarrow> jsval \<Rightarrow> jsval \<Rightarrow> jsval \<Rightarrow> Account settled) \<Rightarrow>
   (Account \<Rightarrow> unit settled) \<Rightarrow> Account option \<Rightarrow> DetailState \<Rightarrow>
   DetailState \<times> call list" where
  "handleReauth authenticate updateAccount account st =
     (case account of
        None \<Rightarrow> (st, [])
      | Some a \<Rightarrow>
          let st1 = st\<lparr>error := None, success := None, reauthing := True\<rparr>;
              code = codeArgument st;
              authCall = Authenticate (email a) (password a) code (cookies a)
                           (deviceIdentifier a)
          in (case authenticate (email a) (password a) code (cookies a)
                     (deviceIdentifier a) of
                Inl err \<Rightarrow> ((reauthCatch err st1)\<lparr>reauthing := False\<rparr>, [authCall])
              | Inr updated \<Rightarrow>
                  (case updateAccount updated of
                     Inl err \<Rightarrow>
                       ((reauthCatch err st1)\<lparr>reauthing := False\<rparr>,
                        [authCall, UpdateAccount updated])
                   | Inr u \<Rightarrow>
                       (st1\<lparr>needsCode := False, reauthCode := [],
                            success := Some ''Account re-authenticated successfully.'',
                            reauthing := False\<rparr>,
                        [authCall, UpdateAccount updated]))))"

text \<open>
  What the view renders from the state: the code prompt (\<^verbatim>\<open>needsCode && ...\<close>), and the
  three phases of the flow.
\<close>

definition codePromptShown :: "DetailState \<Rightarrow> bool" where
  "codePromptShown st = needsCode st"

datatype phase = Idle | Authenticating | AwaitingCode

definition phaseOf :: "DetailState \<Rightarrow> phase" where
  "phaseOf st = (if reauthing st then Authenticating
                 else if needsCode st then AwaitingCode else Idle)"

subsection \<open>The code field\<close>

text \<open>
  The code input is \<^verbatim>\<open>type="text" inputMode="numeric" pattern="[0-9]*" maxLength={6}\<close>.
  It is rendered when \<^verbatim>\<open>needsCode\<close> is set and disabled while \<^verbatim>\<open>reauthing\<close>.
\<close>

definition codeInputEnabled :: "DetailState \<Rightarrow> bool" where
  "codeInputEnabled st = (needsCode st \<and> \<not> reauthing st)"

text \<open>
  \<^verbatim>\<open>onChange={(e) => setReauthCode(e.target.value)}\<close>: the value of the element is
  stored as it is, whatever its characters and its length.
\<close>

definition onCodeChange :: "string \<Rightarrow> DetailState \<Rightarrow> DetailState" where
  "onCodeChange v st = st\<lparr>reauthCode := v\<rparr>"

text \<open>The Verify button: \<^verbatim>\<open>disabled={reauthing || !reauthCode}\<close>.\<close>

definition verifyDisabled :: "DetailState \<Rightarrow> bool" where
  "verifyDisabled st = (reauthing st \<or> reauthCode st = [])"

definition isDigit :: "char \<Rightarrow> bool" where
  "isDigit c = (c \<in> set ''0123456789'')"

definition numeric :: "string \<Rightarrow> bool" where
  "numeric s = list_all isDigit s"

subsection \<open>Export\<close>

text \<open>\<^verbatim>\<open>handleExport\<close>; the clipboard write is the awaited collaborator.\<close>

definition handleExport ::
  "platform \<Rightarrow> (string \<Rightarrow> unit settled) \<Rightarrow> Account option \<Rightarrow> DetailState \<Rightarrow>
   DetailState \<times> call list" where
  "handleExport P writeText account st =
     (case account of
        None \<Rightarrow> (st, [])
      | Some a \<Rightarrow>
          let st1 = st\<lparr>exporting := True, error := None, success := None\<rparr>;
              exportData = JSON_stringify P (account_obj a)
          in (case writeText exportData of
                Inl err \<Rightarrow>
                  (st1\<lparr>error := Some (if isError err then message err
                                        else ''Failed to export account''),
                       exporting := False\<rparr>,
                   [WriteText exportData])
              | Inr u \<Rightarrow>
                  (st1\<lparr>success := Some ''Account data copied to clipboard.'',
                       exporting := False\<rparr>,
                   [WriteText exportData])))"

subsection \<open>Delete\<close>

text \<open>
  \<^verbatim>\<open>handleDelete\<close>, with the store's remove operation as the awaited collaborator. It
  sets no state, and has neither an in-flight flag nor a \<^verbatim>\<open>catch\<close>: between the removal
  call and its settling the view takes further clicks. So the handler is also given in
  two steps, the part before the \<^verbatim>\<open>await\<close> (the guard and the removal call) and the part
  after it (navigation, reached only when the removal resolved).
\<close>

definition handleDelete :: "(jsval \<Rightarrow> unit settled) \<Rightarrow> Account option \<Rightarrow> call list" where
  "handleDelete removeAccount account =
     (case account of
        None \<Rightarrow> []
      | Some a \<Rightarrow>
          (case removeAccount (email a) of
             Inl err \<Rightarrow> [RemoveAccount (email a)]
           | Inr u \<Rightarrow> [RemoveAccount (email a), Navigate ''/accounts'']))"

definition handleDelete_call :: "Account option \<Rightarrow> call list" where
  "handleDelete_call account =
     (case account of None \<Rightarrow> [] | Some a \<Rightarrow> [RemoveAccount (email a)])"

definition handleDelete_resume :: "unit settled \<Rightarrow> call list" where
  "handleDelete_resume r = (case r of Inl err \<Rightarrow> [] | Inr u \<Rightarrow> [Navigate ''/accounts''])"

text \<open>
  The view while it is on screen: its state, whether it is still mounted (navigation
  away unmounts it), and the number of removal calls that have not settled yet.
\<close>

record DetailView =
  ui :: DetailState
  mounted :: bool
  removals :: nat

definition initialView :: DetailView where
  "initialView = \<lparr>ui = initialDetail, mounted = True, removals = 0\<rparr>"

text \<open>
  The events of the delete flow. The view renders \<^emph>\<open>Delete Account\<close> when
  \<^verbatim>\<open>showDelete\<close> is false, and \<^emph>\<open>Confirm Delete\<close> and \<^emph>\<open>Cancel\<close> when it is true; a click
  on a button that is not rendered cannot happen and changes nothing.
\<close>

datatype delete_action =
    RequestDelete
  | ConfirmDelete
  | CancelDelete
  | RemovalSettled "unit settled"

fun deleteStep :: "Account option \<Rightarrow> delete_action \<Rightarrow> DetailView \<Rightarrow> DetailView \<times> call list" where
  "deleteStep account RequestDelete v =
     (if mounted v \<and> account \<noteq> None \<and> \<not> showDelete (ui v)
      then (v\<lparr>ui := (ui v)\<lparr>showDelete := True\<rparr>\<rparr>, [])
      else (v, []))"
| "deleteStep account CancelDelete v =
     (if mounted v \<and> account \<noteq> None \<and> showDelete (ui v)
      then (v\<lparr>ui := (ui v)\<lparr>showDelete := False\<rparr>\<rparr>, [])
      else (v, []))"
| "deleteStep account ConfirmDelete v =
     (if mounted v \<and> account \<noteq> None \<and> showDelete (ui v)
      then (v\<lparr>removals := removals v + 1\<rparr>, handleDelete_call account)
      else (v, []))"
| "deleteStep account (RemovalSettled r) v =
     (if removals v = 0 then (v, [])
      else (v\<lparr>removals := removals v - 1,
               mounted := (case r of Inl err \<Rightarrow> mounted v | Inr u \<Rightarrow> False)\<rparr>,
            handleDelete_resume r))"

text \<open>The confirmation is on screen: \<^emph>\<open>Confirm Delete\<close> can be clicked.\<close>

definition confirmPending :: "Account option \<Rightarrow> DetailView \<Rightarrow> bool" where
  "confirmPending account v = (mounted v \<and> account \<noteq> None \<and> showDelete (ui v))"

fun runDelete :: "Account option \<Rightarrow> delete_action list \<Rightarrow> DetailView \<Rightarrow> DetailView \<times> call list" where
  "runDelete account [] v = (v, [])"
| "runDelete account (x # xs) v =
     (case deleteStep account x v of
        (v1, c1) \<Rightarrow> (case runDelete account xs v1 of (v2, c2) \<Rightarrow> (v2, c1 @ c2)))"

fun isRemoval :: "call \<Rightarrow> bool" where
  "isRemoval (RemoveAccount e) = True"
| "isRemoval c = False"

section \<open>The account list view\<close>

record ListState = banners +
  importing :: bool

definition initialList :: ListState where
  "initialList = \<lparr>error = None, success = None, importing = False\<rparr>"

text \<open>The object literal \<^verbatim>\<open>importedAccount\<close>, built from the parsed clipboard value.\<close>

definition importedAccount :: "jsval \<Rightarrow> Account" where
  "importedAccount data =
     \<lparr>email = getProp data ''email'',
      password = getProp data ''password'',
      appleId = coalesce (getProp data ''appleId'') (getProp data ''email''),
      store = coalesce (getProp data ''store'') (JStr []),
      firstName = coalesce (getProp data ''firstName'') (JStr []),
      lastName = coalesce (getProp data ''lastName'') (JStr []),
      passwordToken = coalesce (getProp data ''passwordToken'') (JStr []),
      directoryServicesIdentifier =
        coalesce (getProp data ''directoryServicesIdentifier'') (JStr []),
      cookies = (if isArray (getProp data ''cookies'') then getProp data ''cookies''
                 else JArr []),
      deviceIdentifier = getProp data ''deviceIdentifier'',
      pod = getProp data ''pod''\<rparr>"

text \<open>The \<^verbatim>\<open>catch\<close> block of \<^verbatim>\<open>handleImport\<close>.\<close>

fun isSyntaxError :: "js_exn \<Rightarrow> bool" where
  "isSyntaxError (SyntaxError m) = True"
| "isSyntaxError e = False"

definition importCatch :: "js_exn \<Rightarrow> ListState \<Rightarrow> ListState" where
  "importCatch err st =
     (if isSyntaxError err then st\<lparr>error := Some ''Invalid JSON in clipboard.''\<rparr>
      else st\<lparr>error := Some (if isError err then message err
                              else ''Failed to import account'')\<rparr>)"

text \<open>The test \<^verbatim>\<open>!v || typeof v !== "string"\<close> of the three required fields.\<close>

definition missingOrInvalid :: "jsval \<Rightarrow> bool" where
  "missingOrInvalid v = (\<not> truthy v \<or> typeof v \<noteq> TString)"

text \<open>
  \<^verbatim>\<open>handleImport\<close>. The clipboard read and the store's add operation are the awaited
  collaborators. The first property read, \<^verbatim>\<open>data.email\<close>, throws a \<^verbatim>\<open>TypeError\<close> when
  the parsed value is \<^verbatim>\<open>null\<close>; once it has succeeded the later reads cannot throw.
  After the store has added the record the success message is set, and then the path of
  the navigation is built: when \<^verbatim>\<open>encodeURIComponent\<close> throws there, the \<^verbatim>\<open>catch\<close> block
  sets the error next to the success message and \<^verbatim>\<open>navigate\<close> is not called. The
  \<^verbatim>\<open>finally\<close> block clears \<^verbatim>\<open>importing\<close> on every path.
\<close>

definition handleImport ::
  "platform \<Rightarrow> string settled \<Rightarrow> (Account \<Rightarrow> unit settled) \<Rightarrow> ListState \<Rightarrow>
   ListState \<times> call list" where
  "handleImport P readText addAccount st =
     (let st1 = st\<lparr>importing := True, error := None, success := None\<rparr> in
      case readText of
        Inl err \<Rightarrow> ((importCatch err st1)\<lparr>importing := False\<rparr>, [ReadText])
      | Inr text \<Rightarrow>
          if trim text = []
          then (st1\<lparr>error := Some ''Clipboard is empty.'', importing := False\<rparr>, [ReadText])
          else
            (case JSON_parse P text of
               None \<Rightarrow> ((importCatch (SyntaxError []) st1)\<lparr>importing := False\<rparr>, [ReadText])
             | Some data \<Rightarrow>
                 if nullish data
                 then ((importCatch (TypeError (nullAccessMessage P ''email'')) st1)
                         \<lparr>importing := False\<rparr>, [ReadText])
                 else if missingOrInvalid (getProp data ''email'')
                 then (st1\<lparr>error := Some ''Invalid account data: missing or invalid email.'',
                           importing := False\<rparr>, [ReadText])
                 else if missingOrInvalid (getProp data ''password'')
                 then (st1\<lparr>error := Some ''Invalid account data: missing or invalid password.'',
                           importing := False\<rparr>, [ReadText])
                 else if missingOrInvalid (getProp data ''deviceIdentifier'')
                 then (st1\<lparr>error :=
                             Some ''Invalid account data: missing or invalid device identifier.'',
                           importing := False\<rparr>, [ReadText])
                 else
                   (let acc = importedAccount data in
                    case addAccount acc of
                      Inl err \<Rightarrow>
                        ((importCatch err st1)\<lparr>importing := False\<rparr>, [ReadText, AddAccount acc])
                    | Inr u \<Rightarrow>
                        (let st2 = st1\<lparr>success :=
                                     Some (''Account '' @ [CHR 0x22] @ strOf (email acc)
                                           @ [CHR 0x22] @ '' imported successfully.'')\<rparr>
                         in case encodeURIComponent P (strOf (email acc)) of
                              None \<Rightarrow>
                                ((importCatch (URIError (uriErrorMessage P)) st2)
                                   \<lparr>importing := False\<rparr>,
                                 [ReadText, AddAccount acc])
                            | Some path \<Rightarrow>
                                (st2\<lparr>importing := False\<rparr>,
                                 [ReadText, AddAccount acc,
                                  Navigate (''/accounts/'' @ path)])))))"

text \<open>
  What export followed by import asks of the platform, for an exported value: the text
  \<^verbatim>\<open>JSON.stringify\<close> writes for it is not blank, and \<^verbatim>\<open>JSON.parse\<close> reads it as the
  value the text denotes.
\<close>

definition exportReadable :: "platform \<Rightarrow> jsval \<Rightarrow> bool" where
  "exportReadable P v =
     (trim (JSON_stringify P v) \<noteq> []
      \<and> JSON_parse P (JSON_stringify P v) = Some (json_image v))"

section \<open>A reference platform\<close>

text \<open>
  The handlers are defined for any platform. To run them on concrete clipboard texts,
  this section implements the built-ins for the part of JavaScript the model covers:
  code units below 256, and numbers written and read in decimal (a number read keeps the
  exact value of its literal; a number is written by the digits of its integer part, which
  is what JavaScript writes for an integer below \<open>10\<^sup>2\<^sup>1\<close> in magnitude).
\<close>

subsection \<open>Writing JSON\<close>

text \<open>
  \<^verbatim>\<open>QuoteJSONString\<close>: the short escapes, \<^verbatim>\<open>\u00XX\<close> (lower-case digits) for the other
  controls, every other code unit as it is.
\<close>

definition hexDigit :: "nat \<Rightarrow> char" where
  "hexDigit n = ''0123456789abcdef'' ! (n mod 16)"

definition escapeUnit :: "char \<Rightarrow> string" where
  "escapeUnit c =
     (let n = (of_char c :: nat) in
      if n = 8 then [CHR 0x5C, CHR ''b'']
      else if n = 9 then [CHR 0x5C, CHR ''t'']
      else if n = 10 then [CHR 0x5C, CHR ''n'']
      else if n = 12 then [CHR 0x5C, CHR ''f'']
      else if n = 13 then [CHR 0x5C, CHR ''r'']
      else if n = 34 then [CHR 0x5C, CHR 0x22]
      else if n = 92 then [CHR 0x5C, CHR 0x5C]
      else if n < 32 then [CHR 0x5C, CHR ''u'', CHR ''0'', CHR ''0'', hexDigit (n div 16), hexDigit n]
      else [c])"

definition quoteJSONString :: "string \<Rightarrow> string" where
  "quoteJSONString s = CHR 0x22 # concat (map escapeUnit s) @ [CHR 0x22]"

text \<open>The decimal digits of a natural number (the first argument bounds the recursion).\<close>

fun digitsOf :: "nat \<Rightarrow> nat \<Rightarrow> string" where
  "digitsOf 0 n = []"
| "digitsOf (Suc f) n =
     (if n < 10 then [char_of (48 + n)] else digitsOf f (n div 10) @ [char_of (48 + n mod 10)])"

definition numberToString :: "real \<Rightarrow> string" where
  "numberToString r =
     (if r < 0 then CHR ''-'' # digitsOf (nat \<lceil>- r\<rceil> + 1) (nat \<lfloor>- r\<rfloor>)
      else digitsOf (nat \<lceil>r\<rceil> + 1) (nat \<lfloor>r\<rfloor>))"

text \<open>
  An array or an object on several lines, two spaces of indentation per level:
  the parts joined by a comma and a line break, or just the two brackets when there is
  no part.
\<close>

definition joinWith :: "string \<Rightarrow> string list \<Rightarrow> string" where
  "joinWith sep xs = (case xs of [] \<Rightarrow> [] | y # ys \<Rightarrow> y @ concat (map (\<lambda>z. sep @ z) ys))"

definition indentOf :: "nat \<Rightarrow> string" where
  "indentOf lvl = replicate (2 * lvl) CHR '' ''"

definition wrapJSON :: "char \<Rightarrow> char \<Rightarrow> nat \<Rightarrow> string list \<Rightarrow> string" where
  "wrapJSON l r lvl parts =
     (if parts = [] then [l, r]
      else l # CHR 0x0A # indentOf (Suc lvl)
           @ joinWith (CHR '','' # CHR 0x0A # indentOf (Suc lvl)) parts
           @ CHR 0x0A # indentOf lvl @ [r])"

text \<open>
  \<^verbatim>\<open>SerializeJSONProperty\<close> at a nesting level. The empty text stands for the result
  \<^verbatim>\<open>undefined\<close>: an object omits such a property, an array writes \<^verbatim>\<open>null\<close> for it.
\<close>

primrec serializeJSON :: "jsval \<Rightarrow> nat \<Rightarrow> string" where
  "serializeJSON JUndefined lvl = []"
| "serializeJSON JNull lvl = ''null''"
| "serializeJSON (JBool b) lvl = (if b then ''true'' else ''false'')"
| "serializeJSON (JNum r) lvl = numberToString r"
| "serializeJSON (JStr s) lvl = quoteJSONString s"
| "serializeJSON (JArr xs) lvl =
     wrapJSON CHR ''['' CHR '']'' lvl
       (map (\<lambda>f. if f (Suc lvl) = [] then ''null'' else f (Suc lvl)) (map serializeJSON xs))"
| "serializeJSON (JObj kvs) lvl =
     wrapJSON CHR ''{'' CHR ''}'' lvl
       (map (\<lambda>kf. quoteJSONString (fst kf) @ '': '' @ snd kf (Suc lvl))
          (filter (\<lambda>kf. snd kf (Suc lvl) \<noteq> [])
             (map (map_prod id serializeJSON) kvs)))"


subsection \<open>Reading JSON\<close>

definition isJsonSpace :: "char \<Rightarrow> bool" where
  "isJsonSpace c = ((of_char c :: nat) \<in> {9, 10, 13, 32})"

definition skipSpace :: "string \<Rightarrow> string" where
  "skipSpace s = dropWhile isJsonSpace s"

definition hexValue :: "char \<Rightarrow> nat option" where
  "hexValue c =
     (let n = (of_char c :: nat) in
      if 48 \<le> n \<and> n \<le> 57 then Some (n - 48)
      else if 65 \<le> n \<and> n \<le> 70 then Some (n - 55)
      else if 97 \<le> n \<and> n \<le> 102 then Some (n - 87)
      else None)"

definition unescape :: "char \<Rightarrow> char option" where
  "unescape c =
     (if c = CHR 0x22 then Some (CHR 0x22)
      else if c = CHR 0x5C then Some (CHR 0x5C)
      else if c = CHR ''/'' then Some (CHR ''/'')
      else if c = CHR ''b'' then Some (CHR 0x08)
      else if c = CHR ''f'' then Some (CHR 0x0C)
      else if c = CHR ''n'' then Some (CHR 0x0A)
      else if c = CHR ''r'' then Some (CHR 0x0D)
      else if c = CHR ''t'' then Some (CHR 0x09)
      else None)"

text \<open>The code unit of \<^verbatim>\<open>\uXXXX\<close>, when it is one below 256.\<close>

definition unicodeEscape :: "string \<Rightarrow> char option" where
  "unicodeEscape hs =
     (case map hexValue hs of
        [Some a, Some b, Some c, Some d] \<Rightarrow>
          if a = 0 \<and> b = 0 then Some (char_of (16 * c + d)) else None
      | _ \<Rightarrow> None)"

text \<open>The characters of a string after its opening quote, up to the closing one.\<close>

fun readString :: "string \<Rightarrow> (string \<times> string) option" where
  "readString [] = None"
| "readString (c # cs) =
     (if c = CHR 0x22 then Some ([], cs)
      else if c = CHR 0x5C then
        (case cs of
           [] \<Rightarrow> None
         | e # es \<Rightarrow>
             if e = CHR ''u'' then
               (case unicodeEscape (take 4 es) of
                  None \<Rightarrow> None
                | Some u \<Rightarrow> map_option (apfst ((#) u)) (readString (drop 4 es)))
             else
               (case unescape e of
                  None \<Rightarrow> None
                | Some u \<Rightarrow> map_option (apfst ((#) u)) (readString es)))
      else if (of_char c :: nat) < 32 then None
      else map_option (apfst ((#) c)) (readString cs))"

text \<open>The number a sequence of decimal digits writes.\<close>

definition digitsValue :: "string \<Rightarrow> int" where
  "digitsValue ds = foldl (\<lambda>a c. 10 * a + (of_char c - 48)) 0 ds"

text \<open>
  A number, \<^verbatim>\<open>-? (0 | [1-9][0-9]*) (. [0-9]+)? ([eE] [+-]? [0-9]+)?\<close>, read part by
  part: the digits of the integer part, of the fraction, and the exponent with its sign,
  each with the text after it.
\<close>

definition readIntPart :: "string \<Rightarrow> string \<times> string" where
  "readIntPart s =
     (if take 1 s = ''0'' then (''0'', drop 1 s)
      else (takeWhile isDigit s, dropWhile isDigit s))"

definition readFraction :: "string \<Rightarrow> (string \<times> string) option" where
  "readFraction s =
     (if take 1 s = ''.'' then
        (if takeWhile isDigit (drop 1 s) = [] then None
         else Some (takeWhile isDigit (drop 1 s), dropWhile isDigit (drop 1 s)))
      else Some ([], s))"

definition readExponent :: "string \<Rightarrow> ((bool \<times> nat) \<times> string) option" where
  "readExponent s =
     (if take 1 s = ''e'' \<or> take 1 s = ''E'' then
        (let s1 = (if take 1 (drop 1 s) = ''-'' \<or> take 1 (drop 1 s) = ''+''
                   then drop 2 s else drop 1 s)
         in if takeWhile isDigit s1 = [] then None
            else Some ((take 1 (drop 1 s) = ''-'', nat (digitsValue (takeWhile isDigit s1))),
                       dropWhile isDigit s1))
      else Some ((False, 0), s))"

text \<open>The number read as the decimal it writes, and the rest of the text.\<close>

definition readNumber :: "string \<Rightarrow> (real \<times> string) option" where
  "readNumber s =
     (case readIntPart (if take 1 s = ''-'' then drop 1 s else s) of
        (ip, s2) \<Rightarrow>
          if ip = [] then None
          else case readFraction s2 of
            None \<Rightarrow> None
          | Some (fp, s3) \<Rightarrow>
              case readExponent s3 of
                None \<Rightarrow> None
              | Some ((eneg, e), s4) \<Rightarrow>
                  let mant = real_of_int (digitsValue ip)
                             + real_of_int (digitsValue fp) / 10 ^ length fp;
                      scaled = (if eneg then mant / 10 ^ e else mant * 10 ^ e)
                  in Some (if take 1 s = ''-'' then - scaled else scaled, s4))"

text \<open>
  The object a member list denotes. A repeated key keeps its first place and takes the
  last value; the properties are then in the order JavaScript enumerates them, the
  array-index keys first, ascending, then the other keys as they were created.
\<close>

fun setProp :: "(string \<times> jsval) list \<Rightarrow> string \<Rightarrow> jsval \<Rightarrow> (string \<times> jsval) list" where
  "setProp [] k v = [(k, v)]"
| "setProp ((k', v') # kvs) k v =
     (if k' = k then (k, v) # kvs else (k', v') # setProp kvs k v)"

definition isIndexKey :: "string \<Rightarrow> bool" where
  "isIndexKey k = (k \<noteq> [] \<and> list_all isDigit k \<and> (length k = 1 \<or> take 1 k \<noteq> ''0'')
     \<and> digitsValue k < 4294967295)"

definition orderProps :: "(string \<times> jsval) list \<Rightarrow> (string \<times> jsval) list" where
  "orderProps kvs =
     sort_key (\<lambda>kv. digitsValue (fst kv)) (filter (\<lambda>kv. isIndexKey (fst kv)) kvs)
     @ filter (\<lambda>kv. \<not> isIndexKey (fst kv)) kvs"

definition makeObject :: "(string \<times> jsval) list \<Rightarrow> jsval" where
  "makeObject kvs =
     JObj (orderProps (foldl (\<lambda>acc kv. setProp acc (fst kv) (snd kv)) [] kvs))"

text \<open>
  The recursive-descent reader: a value after optional white space, the elements of an
  array after its bracket, the members of an object after its brace. The first argument
  bounds the number of nested calls; a text of \<open>n\<close> characters needs fewer than
  \<open>2 * n + 2\<close>.
\<close>

fun readValue :: "nat \<Rightarrow> string \<Rightarrow> (jsval \<times> string) option"
  and readElements :: "nat \<Rightarrow> string \<Rightarrow> (jsval list \<times> string) option"
  and readMembers :: "nat \<Rightarrow> string \<Rightarrow> ((string \<times> jsval) list \<times> string) option" where
  "readValue 0 s = None"
| "readValue (Suc n) s =
     (case skipSpace s of
        [] \<Rightarrow> None
      | c # cs \<Rightarrow>
          if c = CHR ''{'' then
            (if take 1 (skipSpace cs) = ''}'' then Some (JObj [], drop 1 (skipSpace cs))
             else map_option (apfst makeObject) (readMembers n cs))
          else if c = CHR ''['' then
            (if take 1 (skipSpace cs) = '']'' then Some (JArr [], drop 1 (skipSpace cs))
             else map_option (apfst JArr) (readElements n cs))
          else if c = CHR 0x22 then map_option (apfst JStr) (readString cs)
          else if take 4 (c # cs) = ''null'' then Some (JNull, drop 3 cs)
          else if take 4 (c # cs) = ''true'' then Some (JBool True, drop 3 cs)
          else if take 5 (c # cs) = ''false'' then Some (JBool False, drop 4 cs)
          else map_option (apfst JNum) (readNumber (c # cs)))"
| "readElements 0 s = None"
| "readElements (Suc n) s =
     (case readValue n s of
        None \<Rightarrow> None
      | Some (v, r) \<Rightarrow>
          if take 1 (skipSpace r) = '','' then
            map_option (apfst ((#) v)) (readElements n (drop 1 (skipSpace r)))
          else if take 1 (skipSpace r) = '']'' then Some ([v], drop 1 (skipSpace r))
          else None)"
| "readMembers 0 s = None"
| "readMembers (Suc n) s =
     (if take 1 (skipSpace s) \<noteq> [CHR 0x22] then None
      else case readString (drop 1 (skipSpace s)) of
        None \<Rightarrow> None
      | Some (k, r) \<Rightarrow>
          if take 1 (skipSpace r) \<noteq> '':'' then None
          else case readValue n (drop 1 (skipSpace r)) of
            None \<Rightarrow> None
          | Some (v, r') \<Rightarrow>
              if take 1 (skipSpace r') = '','' then
                map_option (apfst ((#) (k, v))) (readMembers n (drop 1 (skipSpace r')))
              else if take 1 (skipSpace r') = ''}'' then Some ([(k, v)], drop 1 (skipSpace r'))
              else None)"

text \<open>\<^verbatim>\<open>JSON.parse\<close>: one value, and nothing but white space after it.\<close>

definition refParse :: "string \<Rightarrow> jsval option" where
  "refParse s =
     (case readValue (2 * length s + 2) s of
        None \<Rightarrow> None
      | Some (v, r) \<Rightarrow> if skipSpace r = [] then Some v else None)"

text \<open>\<^verbatim>\<open>JSON.stringify(v, null, 2)\<close>.\<close>

definition refStringify :: "jsval \<Rightarrow> string" where
  "refStringify v = serializeJSON v 0"

subsection \<open>The other built-ins\<close>

definition upperHexDigit :: "nat \<Rightarrow> char" where
  "upperHexDigit n = ''0123456789ABCDEF'' ! (n mod 16)"

definition percentByte :: "nat \<Rightarrow> string" where
  "percentByte n = [CHR ''%'', upperHexDigit (n div 16), upperHexDigit n]"

definition uriUnreserved :: "char \<Rightarrow> bool" where
  "uriUnreserved c =
     (c \<in> set ''ABCDEFGHIJKLMNOPQRSTUVWXYZabcdefghijklmnopqrstuvwxyz0123456789-_.!~*()''
      \<or> c = CHR 0x27)"

text \<open>
  \<^verbatim>\<open>encodeURIComponent\<close>: every code unit but the unreserved ones is written as the
  percent-encoded bytes of its UTF-8 form (one byte below 128, two from 128 to 255). No
  code unit below 256 is a surrogate, so on these strings the built-in does not throw.
\<close>

definition refEncodeURIComponent :: "string \<Rightarrow> string" where
  "refEncodeURIComponent s =
     concat (map (\<lambda>c. let n = (of_char c :: nat) in
                       if uriUnreserved c then [c]
                       else if n < 128 then percentByte n
                       else percentByte (192 + n div 64) @ percentByte (128 + n mod 64)) s)"

text \<open>The messages of V8 for a malformed URI and for a property read on \<^verbatim>\<open>null\<close>.\<close>

definition refUriErrorMessage :: string where
  "refUriErrorMessage = ''URI malformed''"

definition refNullAccessMessage :: "string \<Rightarrow> string" where
  "refNullAccessMessage k =
     ''Cannot read properties of null (reading '' @ [CHR 0x27] @ k @ [CHR 0x27] @ '')''"

definition refPlatform :: platform where
  "refPlatform = \<lparr>JSON_parse = refParse, JSON_stringify = refStringify,
     encodeURIComponent = (\<lambda>s. Some (refEncodeURIComponent s)),
     uriErrorMessage = refUriErrorMessage, nullAccessMessage = refNullAccessMessage\<rparr>"

subsection \<open>The values the reader gives back\<close>

text \<open>
  The JSON values that the reference reader gives back exactly as they were written:
  no \<^verbatim>\<open>undefined\<close>, whole numbers, and objects whose keys are distinct and stand in
  enumeration order.
\<close>

primrec properJson :: "jsval \<Rightarrow> bool" where
  "properJson JUndefined = False"
| "properJson JNull = True"
| "properJson (JBool b) = True"
| "properJson (JNum r) = (r = of_int \<lfloor>r\<rfloor>)"
| "properJson (JStr s) = True"
| "properJson (JArr xs) = list_all (\<lambda>b. b) (map properJson xs)"
| "properJson (JObj kvs) =
     (distinct (map fst kvs) \<and> orderProps kvs = kvs
      \<and> list_all snd (map (map_prod id properJson) kvs))"

text \<open>
  A run-time value is safe to export when it is \<^verbatim>\<open>undefined\<close> (the property is then left
  out) or denotes such a JSON value; an account is when its eleven fields are.
\<close>

definition jsonSafe :: "jsval \<Rightarrow> bool" where
  "jsonSafe v = (v = JUndefined \<or> properJson (json_image v))"

definition accountSafe :: "Account \<Rightarrow> bool" where
  "accountSafe a =
     list_all jsonSafe
       [email a, password a, appleId a, store a, firstName a, lastName a, passwordToken a,
        directoryServicesIdentifier a, cookies a, deviceIdentifier a, pod a]"

text \<open>
  Notions for the proof that the reader inverts the writer: the characters that cannot
  continue a number, the characters a value can start with, a bound on the nested calls
  the reader needs for a value, and the statement proved by induction on the value.
\<close>

definition numberEnd :: "string \<Rightarrow> bool" where
  "numberEnd rest =
     (case rest of [] \<Rightarrow> True
      | c # cs \<Rightarrow> \<not> isDigit c \<and> c \<noteq> CHR ''.'' \<and> c \<noteq> CHR ''e'' \<and> c \<noteq> CHR ''E'')"

definition valueStart :: "char \<Rightarrow> bool" where
  "valueStart c = (c \<in> set ''{[ntf-'' \<or> c = CHR 0x22 \<or> isDigit c)"

primrec cost :: "jsval \<Rightarrow> nat" where
  "cost JUndefined = 1"
| "cost JNull = 1"
| "cost (JBool b) = 1"
| "cost (JNum r) = 1"
| "cost (JStr s) = 1"
| "cost (JArr xs) = Suc (sum_list (map Suc (map cost xs)))"
| "cost (JObj kvs) = Suc (sum_list (map (\<lambda>kc. Suc (snd kc)) (map (map_prod id cost) kvs)))"

definition readsBack :: "jsval \<Rightarrow> bool" where
  "readsBack j \<longleftrightarrow>
     (\<forall>n w rest lvl. cost j \<le> n \<longrightarrow> list_all isJsonSpace w \<longrightarrow> numberEnd rest \<longrightarrow>
        readValue n (w @ serializeJSON j lvl @ rest) = Some (j, rest))"

section \<open>Sample data\<close>

definition sampleAccount :: Account where
  "sampleAccount =
     \<lparr>email = JStr ''a@b.com'', password = JStr ''x'', appleId = JStr ''a@b.com'',
      store = JStr ''143441'', firstName = JStr ''Ann'', lastName = JStr ''Lee'',
      passwordToken = JStr ''t1'', directoryServicesIdentifier = JStr ''1001'',
      cookies = JArr [], deviceIdentifier = JStr ''D1'', pod = JUndefined\<rparr>"

definition refreshedAccount :: Account where
  "refreshedAccount = sampleAccount\<lparr>passwordToken := JStr ''t2'', pod := JStr ''12''\<rparr>"

text \<open>A detail view that is showing the code prompt with a code typed in.\<close>

definition awaitingCodeState :: DetailState where
  "awaitingCodeState = initialDetail\<lparr>needsCode := True, reauthCode := ''123456''\<rparr>"

text \<open>
  The clipboard text \<^verbatim>\<open>{"email":"a@b.com","password":"x","deviceIdentifier":"D1"}\<close> and the
  object it denotes.
\<close>

definition quoted :: "string \<Rightarrow> string" where
  "quoted s = CHR 0x22 # s @ [CHR 0x22]"




text \<open>The view after an attempt that the authenticator answered by asking for a code.\<close>

definition promptedState :: DetailState where
  "promptedState =
     fst (handleReauth (\<lambda>e p c k d. Inl (AuthenticationError ''Enter the code'' True))
            (\<lambda>a. Inr ()) (Some sampleAccount) initialDetail)"

section \<open>Properties of the re-authentication flow\<close>

lemmas reauth_defs =
  handleReauth_def reauthCatch_def phaseOf_def codePromptShown_def Let_def

text \<open>
  Claim C3. When the authenticator rejects with an error flagged code-required, the flow
  ends in the phase \<open>AwaitingCode\<close> with the code prompt shown, the error banner holds the
  failure's message, and the code field keeps what was typed.
\<close>

theorem reauth_code_required:
  assumes "authenticate (email a) (password a) (codeArgument st) (cookies a)
             (deviceIdentifier a) = Inl err"
    and "codeRequiredError err"
  shows "phaseOf (fst (handleReauth authenticate updateAccount (Some a) st)) = AwaitingCode
       \<and> codePromptShown (fst (handleReauth authenticate updateAccount (Some a) st))
       \<and> error (fst (handleReauth authenticate updateAccount (Some a) st))
           = Some (message err)
       \<and> reauthCode (fst (handleReauth authenticate updateAccount (Some a) st))
           = reauthCode st"
  using assms by (simp add: reauth_defs)

theorem reauth_code_required_witness:
  "phaseOf (fst (handleReauth
      (\<lambda>e p c k d. Inl (AuthenticationError ''Enter the code sent to your devices'' True))
      (\<lambda>a. Inr ()) (Some sampleAccount) awaitingCodeState)) = AwaitingCode
   \<and> error (fst (handleReauth
      (\<lambda>e p c k d. Inl (AuthenticationError ''Enter the code sent to your devices'' True))
      (\<lambda>a. Inr ()) (Some sampleAccount) awaitingCodeState))
       = Some ''Enter the code sent to your devices''
   \<and> reauthCode (fst (handleReauth
      (\<lambda>e p c k d. Inl (AuthenticationError ''Enter the code sent to your devices'' True))
      (\<lambda>a. Inr ()) (Some sampleAccount) awaitingCodeState)) = ''123456''"
  using reauth_code_required [of
      "\<lambda>e p c k d. Inl (AuthenticationError ''Enter the code sent to your devices'' True)"
      sampleAccount awaitingCodeState
      "AuthenticationError ''Enter the code sent to your devices'' True" "\<lambda>a. Inr ()"]
  by (simp add: awaitingCodeState_def initialDetail_def)

text \<open>
  Claim C1 fails as stated. A view that is showing the code prompt and whose attempt is
  rejected with an error that is not flagged code-required still shows the prompt
  afterwards: the \<^verbatim>\<open>else\<close> branch of the \<^verbatim>\<open>catch\<close> block sets the error banner and
  leaves \<^verbatim>\<open>needsCode\<close> alone.
\<close>

theorem reauth_failure_keeps_prompt:
  "\<not> codeRequiredError (AuthenticationError ''Incorrect verification code'' False)
   \<and> phaseOf (fst (handleReauth
         (\<lambda>e p c k d. Inl (AuthenticationError ''Incorrect verification code'' False))
         (\<lambda>a. Inr ()) (Some sampleAccount) awaitingCodeState)) = AwaitingCode
   \<and> codePromptShown (fst (handleReauth
         (\<lambda>e p c k d. Inl (AuthenticationError ''Incorrect verification code'' False))
         (\<lambda>a. Inr ()) (Some sampleAccount) awaitingCodeState))"
  by (simp add: reauth_defs awaitingCodeState_def initialDetail_def)

text \<open>
  Claim C1, amended. When the authenticator rejects with an error that is not flagged
  code-required, the handler clears the in-flight flag, shows the failure message (the
  fixed text for a thrown value that is no error) as the error, clears the success
  banner, and changes nothing else: the code prompt and the code field stay as they
  were, so the flow ends in \<open>Idle\<close> exactly when no prompt was shown before. The only
  call is the one to the authenticator, so the account store is not touched.
\<close>

theorem reauth_other_failure:
  assumes "authenticate (email a) (password a) (codeArgument st) (cookies a)
             (deviceIdentifier a) = Inl err"
    and "\<not> codeRequiredError err"
  shows "handleReauth authenticate updateAccount (Some a) st =
           (st\<lparr>error := Some (if isError err then message err
                                else ''Re-authentication failed''),
               success := None, reauthing := False\<rparr>,
            [Authenticate (email a) (password a) (codeArgument st) (cookies a)
               (deviceIdentifier a)])
       \<and> phaseOf (fst (handleReauth authenticate updateAccount (Some a) st)) =
           (if needsCode st then AwaitingCode else Idle)
       \<and> codePromptShown (fst (handleReauth authenticate updateAccount (Some a) st)) =
           codePromptShown st
       \<and> reauthCode (fst (handleReauth authenticate updateAccount (Some a) st)) =
           reauthCode st
       \<and> filter storeMutation (snd (handleReauth authenticate updateAccount (Some a) st)) = []"
  using assms by (simp add: reauth_defs)

theorem reauth_other_failure_witness:
  "handleReauth (\<lambda>e p c k d. Inl (OtherError ''Network unreachable'')) (\<lambda>a. Inr ())
     (Some sampleAccount) initialDetail =
     (initialDetail\<lparr>error := Some ''Network unreachable''\<rparr>,
      [Authenticate (JStr ''a@b.com'') (JStr ''x'') JUndefined (JArr []) (JStr ''D1'')])
   \<and> phaseOf (fst (handleReauth (\<lambda>e p c k d. Inl (OtherError ''Network unreachable''))
        (\<lambda>a. Inr ()) (Some sampleAccount) initialDetail)) = Idle"
  using reauth_other_failure [of "\<lambda>e p c k d. Inl (OtherError ''Network unreachable'')"
      sampleAccount initialDetail "OtherError ''Network unreachable''" "\<lambda>a. Inr ()"]
  by (simp add: sampleAccount_def initialDetail_def codeArgument_def phaseOf_def)

text \<open>
  Claim C2 fails as stated. The store's update is awaited inside the \<^verbatim>\<open>try\<close> block, so
  when the authenticator resolves and the update rejects, the statements after it are
  skipped: the code prompt and the typed code stay, and no success message is set.
\<close>

theorem reauth_store_rejects:
  "needsCode (fst (handleReauth (\<lambda>e p c k d. Inr refreshedAccount)
       (\<lambda>a. Inl (OtherError ''Quota exceeded'')) (Some sampleAccount) awaitingCodeState))
   \<and> reauthCode (fst (handleReauth (\<lambda>e p c k d. Inr refreshedAccount)
       (\<lambda>a. Inl (OtherError ''Quota exceeded'')) (Some sampleAccount) awaitingCodeState))
       = ''123456''
   \<and> success (fst (handleReauth (\<lambda>e p c k d. Inr refreshedAccount)
       (\<lambda>a. Inl (OtherError ''Quota exceeded'')) (Some sampleAccount) awaitingCodeState))
       = None"
  by (simp add: reauth_defs awaitingCodeState_def initialDetail_def)

text \<open>
  Claim C2, amended. When the authenticator resolves, the one call made to the store is
  the update, and its argument is the record the authenticator returned, unchanged.
  When that update resolves too, the code prompt and the code field are cleared, the
  flow is back in \<open>Idle\<close>, and the success message is shown.
\<close>

theorem reauth_success:
  assumes "authenticate (email a) (password a) (codeArgument st) (cookies a)
             (deviceIdentifier a) = Inr updated"
  shows "filter storeMutation (snd (handleReauth authenticate updateAccount (Some a) st))
           = [UpdateAccount updated]
       \<and> (updateAccount updated = Inr () \<longrightarrow>
            needsCode (fst (handleReauth authenticate updateAccount (Some a) st)) = False
          \<and> reauthCode (fst (handleReauth authenticate updateAccount (Some a) st)) = []
          \<and> phaseOf (fst (handleReauth authenticate updateAccount (Some a) st)) = Idle
          \<and> success (fst (handleReauth authenticate updateAccount (Some a) st))
              = Some ''Account re-authenticated successfully.''
          \<and> error (fst (handleReauth authenticate updateAccount (Some a) st)) = None)"
  using assms
  by (cases "updateAccount updated") (simp_all add: reauth_defs)

theorem reauth_success_witness:
  "filter storeMutation (snd (handleReauth (\<lambda>e p c k d. Inr refreshedAccount) (\<lambda>a. Inr ())
      (Some sampleAccount) awaitingCodeState)) = [UpdateAccount refreshedAccount]
   \<and> reauthCode (fst (handleReauth (\<lambda>e p c k d. Inr refreshedAccount) (\<lambda>a. Inr ())
      (Some sampleAccount) awaitingCodeState)) = []
   \<and> phaseOf (fst (handleReauth (\<lambda>e p c k d. Inr refreshedAccount) (\<lambda>a. Inr ())
      (Some sampleAccount) awaitingCodeState)) = Idle"
  using reauth_success [of "\<lambda>e p c k d. Inr refreshedAccount" sampleAccount
      awaitingCodeState refreshedAccount "\<lambda>a. Inr ()"]
  by simp

section \<open>Properties of the code field\<close>

text \<open>
  Claim C8 does not hold of the code input. The element asks for digits
  (\<^verbatim>\<open>inputMode="numeric"\<close>, \<^verbatim>\<open>pattern="[0-9]*"\<close>) and for at most six characters
  (\<^verbatim>\<open>maxLength\<close>), but the change handler stores the element's value without looking at
  it; \<^verbatim>\<open>inputMode\<close> only selects a keyboard and \<^verbatim>\<open>pattern\<close> is read on form submission
  only (there is no form). Once the prompt is on screen, typing \<^verbatim>\<open>12ab\<close> puts a code that
  is not numeric into the state; the verify action is then enabled, and the
  re-authentication it starts hands \<^verbatim>\<open>12ab\<close> to the authenticator. The handler does not
  check the length either: a change that carries seven characters is stored in full.
\<close>

theorem code_field_not_numeric:
  "codeInputEnabled promptedState
   \<and> reauthCode (onCodeChange ''12ab'' promptedState) = ''12ab''
   \<and> \<not> numeric (reauthCode (onCodeChange ''12ab'' promptedState))
   \<and> \<not> verifyDisabled (onCodeChange ''12ab'' promptedState)
   \<and> snd (handleReauth (\<lambda>e p c k d. Inr refreshedAccount) (\<lambda>a. Inr ())
          (Some sampleAccount) (onCodeChange ''12ab'' promptedState)) =
       [Authenticate (JStr ''a@b.com'') (JStr ''x'') (JStr ''12ab'') (JArr []) (JStr ''D1''),
        UpdateAccount refreshedAccount]
   \<and> length (reauthCode (onCodeChange ''1234567'' promptedState)) = 7"
  by (simp add: promptedState_def codeInputEnabled_def onCodeChange_def numeric_def
      isDigit_def verifyDisabled_def reauth_defs codeArgument_def initialDetail_def
      sampleAccount_def)

section \<open>Properties of the delete flow\<close>

text \<open>The two steps of \<^verbatim>\<open>handleDelete\<close> make up the handler.\<close>

lemma handleDelete_steps:
  "handleDelete removeAccount None = handleDelete_call None"
  "handleDelete removeAccount (Some a) =
     handleDelete_call (Some a) @ handleDelete_resume (removeAccount (email a))"
  by (simp_all add: handleDelete_def handleDelete_call_def handleDelete_resume_def
      split: sum.split)

lemma deleteStep_removals:
  "filter isRemoval (snd (deleteStep account x v)) =
     (if x = ConfirmDelete \<and> confirmPending account v then handleDelete_call account else [])"
  by (cases x) (auto simp: handleDelete_call_def handleDelete_resume_def confirmPending_def
      split: option.split sum.split)

lemma deleteStep_pending:
  "confirmPending account (fst (deleteStep account x v)) \<Longrightarrow>
     x \<noteq> CancelDelete \<and> (confirmPending account v \<or> x = RequestDelete)"
  by (cases x) (auto simp: confirmPending_def split: if_splits sum.splits)

lemma runDelete_removal_order:
  "filter isRemoval (snd (runDelete account xs v)) \<noteq> [] \<Longrightarrow>
     (confirmPending account v \<and>
        (\<exists>mid post. xs = mid @ ConfirmDelete # post \<and> CancelDelete \<notin> set mid))
   \<or> (\<exists>pre mid post. xs = pre @ RequestDelete # mid @ ConfirmDelete # post
          \<and> CancelDelete \<notin> set mid)"
proof (induction xs arbitrary: v)
  case Nil
  then show ?case by simp
next
  case (Cons x xs)
  obtain v1 c1 where s: "deleteStep account x v = (v1, c1)"
    by (cases "deleteStep account x v")
  obtain v2 c2 where r: "runDelete account xs v1 = (v2, c2)"
    by (cases "runDelete account xs v1")
  from Cons.prems s r have ne: "filter isRemoval c1 \<noteq> [] \<or> filter isRemoval c2 \<noteq> []"
    by auto
  show ?case
  proof (cases "filter isRemoval c1 \<noteq> []")
    case True
    then have "x = ConfirmDelete \<and> confirmPending account v"
      using deleteStep_removals [of account x v] s by (auto split: if_splits)
    then have "confirmPending account v \<and> x # xs = [] @ ConfirmDelete # xs
        \<and> CancelDelete \<notin> set []"
      by simp
    then show ?thesis by blast
  next
    case False
    with ne have "filter isRemoval (snd (runDelete account xs v1)) \<noteq> []" using r by simp
    from Cons.IH [OF this] show ?thesis
    proof
      assume a: "confirmPending account v1 \<and>
        (\<exists>mid post. xs = mid @ ConfirmDelete # post \<and> CancelDelete \<notin> set mid)"
      then obtain mid post where m: "xs = mid @ ConfirmDelete # post" "CancelDelete \<notin> set mid"
        by blast
      from a s deleteStep_pending [of account x v]
      have p: "x \<noteq> CancelDelete" "confirmPending account v \<or> x = RequestDelete" by auto
      from p(2) show ?thesis
      proof
        assume "confirmPending account v"
        moreover have "x # xs = (x # mid) @ ConfirmDelete # post" using m by simp
        moreover have "CancelDelete \<notin> set (x # mid)" using m p(1) by auto
        ultimately show ?thesis by blast
      next
        assume "x = RequestDelete"
        then have "x # xs = [] @ RequestDelete # mid @ ConfirmDelete # post" using m by simp
        with m(2) show ?thesis by blast
      qed
    next
      assume "\<exists>pre mid post. xs = pre @ RequestDelete # mid @ ConfirmDelete # post
          \<and> CancelDelete \<notin> set mid"
      then obtain pre mid post where
        m: "xs = pre @ RequestDelete # mid @ ConfirmDelete # post" "CancelDelete \<notin> set mid"
        by blast
      then have "x # xs = (x # pre) @ RequestDelete # mid @ ConfirmDelete # post" by simp
      with m(2) show ?thesis by blast
    qed
  qed
qed

lemma runDelete_unmounted:
  "\<not> mounted v \<Longrightarrow> filter isRemoval (snd (runDelete account xs v)) = []"
proof (induction xs arbitrary: v)
  case Nil
  show ?case by simp
next
  case (Cons x xs)
  obtain v1 c1 where s: "deleteStep account x v = (v1, c1)"
    by (cases "deleteStep account x v")
  have "\<not> mounted v1" using Cons.prems s by (cases x) (auto split: if_splits sum.splits)
  moreover have "filter isRemoval c1 = []"
    using deleteStep_removals [of account x v] s Cons.prems by (simp add: confirmPending_def)
  ultimately show ?case using Cons.IH [of v1] s
    by (cases "runDelete account xs v1") simp
qed

text \<open>
  Claim C7 fails as stated. Nothing disables \<^emph>\<open>Confirm Delete\<close> once it has been
  clicked: \<^verbatim>\<open>handleDelete\<close> sets no in-flight flag and leaves \<^verbatim>\<open>showDelete\<close> set, so a
  second click before the first removal has settled (or after it was rejected) calls
  the store's remove operation a second time.
\<close>

theorem confirm_twice_removes_twice:
  "filter isRemoval (snd (runDelete (Some sampleAccount)
      [RequestDelete, ConfirmDelete, ConfirmDelete] initialView)) =
     [RemoveAccount (JStr ''a@b.com''), RemoveAccount (JStr ''a@b.com'')]"
  by (simp add: initialView_def initialDetail_def handleDelete_call_def sampleAccount_def)

lemma deleteStep_confirm:
  "deleteStep (Some a) ConfirmDelete v =
     (if mounted v \<and> showDelete (ui v)
      then (v\<lparr>removals := removals v + 1\<rparr>, [RemoveAccount (email a)])
      else (v, []))"
  by (simp add: handleDelete_call_def)

lemma deleteStep_other:
  "x \<noteq> ConfirmDelete \<Longrightarrow> filter isRemoval (snd (deleteStep (Some a) x v)) = []"
  by (simp add: deleteStep_removals)

lemma runDelete_confirms:
  "mounted v \<Longrightarrow> showDelete (ui v) \<Longrightarrow>
   runDelete (Some a) (replicate n ConfirmDelete) v =
     (v\<lparr>removals := removals v + n\<rparr>, replicate n (RemoveAccount (email a)))"
proof (induction n arbitrary: v)
  case 0
  show ?case by simp
next
  case (Suc n)
  have "runDelete (Some a) (replicate n ConfirmDelete) (v\<lparr>removals := removals v + 1\<rparr>) =
     (v\<lparr>removals := removals v + 1 + n\<rparr>, replicate n (RemoveAccount (email a)))"
    using Suc.IH [of "v\<lparr>removals := removals v + 1\<rparr>"] Suc.prems by simp
  then show ?case using Suc.prems by (simp add: handleDelete_call_def)
qed

lemma runDelete_removals:
  "\<exists>k. k \<le> count_list xs ConfirmDelete
     \<and> filter isRemoval (snd (runDelete (Some a) xs v)) = replicate k (RemoveAccount (email a))"
proof (induction xs arbitrary: v)
  case Nil
  show ?case by simp
next
  case (Cons x xs)
  obtain v1 c1 where s: "deleteStep (Some a) x v = (v1, c1)"
    by (cases "deleteStep (Some a) x v")
  obtain v2 c2 where r: "runDelete (Some a) xs v1 = (v2, c2)"
    by (cases "runDelete (Some a) xs v1")
  from Cons.IH [of v1] r obtain k where
    k: "k \<le> count_list xs ConfirmDelete"
       "filter isRemoval c2 = replicate k (RemoveAccount (email a))"
    by auto
  show ?case
  proof (cases "x = ConfirmDelete \<and> mounted v \<and> showDelete (ui v)")
    case True
    then have "filter isRemoval c1 = [RemoveAccount (email a)]"
      using s by (auto simp: handleDelete_call_def)
    then have "filter isRemoval (snd (runDelete (Some a) (x # xs) v)) =
        replicate (Suc k) (RemoveAccount (email a))"
      using s r k(2) by simp
    moreover have "Suc k \<le> count_list (x # xs) ConfirmDelete" using True k(1) by simp
    ultimately show ?thesis by blast
  next
    case False
    then have "filter isRemoval c1 = []"
      using s deleteStep_other [of x a v] by (cases "x = ConfirmDelete") auto
    then have "filter isRemoval (snd (runDelete (Some a) (x # xs) v)) =
        replicate k (RemoveAccount (email a))"
      using s r k(2) by simp
    moreover have "k \<le> count_list (x # xs) ConfirmDelete" using k(1) by simp
    ultimately show ?thesis by blast
  qed
qed

text \<open>
  Claim C7, amended. In every sequence of delete-flow events on the view of an account,
  a removal is called only by a confirm click made while the confirmation is on screen,
  and the confirmation got there by an explicit delete request that no cancel followed.
  Each such confirm click calls the store's remove operation once, with the email of the
  account, and no other event calls it: \<open>n\<close> confirm clicks after a delete request make
  \<open>n\<close> removal calls, and the removal calls of a sequence are never more than its confirm
  clicks, so a sequence without one (a single delete click in particular) makes none.
  The handler itself calls the remove operation once and navigates away when the removal
  has resolved; once the view has been left no removal is called. Cancel calls nothing
  and hides the confirmation again: a delete request followed by cancel leaves the view
  as it started.
\<close>

theorem delete_flow:
  "(filter isRemoval (snd (runDelete (Some a) xs initialView)) \<noteq> [] \<longrightarrow>
      (\<exists>pre mid post. xs = pre @ RequestDelete # mid @ ConfirmDelete # post
         \<and> CancelDelete \<notin> set mid))
   \<and> snd (deleteStep (Some a) ConfirmDelete v) =
       (if mounted v \<and> showDelete (ui v) then [RemoveAccount (email a)] else [])
   \<and> (x \<noteq> ConfirmDelete \<longrightarrow> filter isRemoval (snd (deleteStep (Some a) x v)) = [])
   \<and> (\<exists>k. k \<le> count_list xs ConfirmDelete
         \<and> filter isRemoval (snd (runDelete (Some a) xs v)) =
             replicate k (RemoveAccount (email a)))
   \<and> snd (runDelete (Some a) (RequestDelete # replicate n ConfirmDelete) initialView) =
       replicate n (RemoveAccount (email a))
   \<and> snd (runDelete (Some a) [RequestDelete, ConfirmDelete, RemovalSettled (Inr ())]
          initialView) = [RemoveAccount (email a), Navigate ''/accounts'']
   \<and> handleDelete removeAccount (Some a) =
       RemoveAccount (email a)
         # (case removeAccount (email a) of Inl err \<Rightarrow> [] | Inr u \<Rightarrow> [Navigate ''/accounts''])
   \<and> snd (runDelete (Some a) [RequestDelete] initialView) = []
   \<and> (\<not> mounted v \<longrightarrow> filter isRemoval (snd (runDelete (Some a) xs v)) = [])
   \<and> (0 < removals v \<longrightarrow>
        \<not> mounted (fst (deleteStep (Some a) (RemovalSettled (Inr ())) v)))
   \<and> snd (deleteStep (Some a) CancelDelete v) = []
   \<and> (mounted v \<and> showDelete (ui v) \<longrightarrow>
        \<not> showDelete (ui (fst (deleteStep (Some a) CancelDelete v))))
   \<and> runDelete (Some a) [RequestDelete, CancelDelete] initialView = (initialView, [])"
proof -
  have "\<not> confirmPending (Some a) initialView"
    by (simp add: confirmPending_def initialView_def initialDetail_def)
  then have order: "filter isRemoval (snd (runDelete (Some a) xs initialView)) \<noteq> [] \<longrightarrow>
      (\<exists>pre mid post. xs = pre @ RequestDelete # mid @ ConfirmDelete # post
         \<and> CancelDelete \<notin> set mid)"
    using runDelete_removal_order [of "Some a" xs initialView] by blast
  have confirm: "snd (deleteStep (Some a) ConfirmDelete v) =
       (if mounted v \<and> showDelete (ui v) then [RemoveAccount (email a)] else [])"
    by (simp add: handleDelete_call_def)
  have other: "x \<noteq> ConfirmDelete \<longrightarrow>
      filter isRemoval (snd (deleteStep (Some a) x v)) = []"
    using deleteStep_other [of x a v] by blast
  have requested: "deleteStep (Some a) RequestDelete initialView =
      (initialView\<lparr>ui := initialDetail\<lparr>showDelete := True\<rparr>\<rparr>, [])"
    by (simp add: initialView_def initialDetail_def)
  have many: "snd (runDelete (Some a) (RequestDelete # replicate n ConfirmDelete)
      initialView) = replicate n (RemoveAccount (email a))"
  proof -
    have m: "mounted (initialView\<lparr>ui := initialDetail\<lparr>showDelete := True\<rparr>\<rparr>)"
      "showDelete (ui (initialView\<lparr>ui := initialDetail\<lparr>showDelete := True\<rparr>\<rparr>))"
      by (simp_all add: initialView_def)
    show ?thesis
      unfolding runDelete.simps requested by (simp add: runDelete_confirms [OF m])
  qed
  have once: "snd (runDelete (Some a) [RequestDelete, ConfirmDelete, RemovalSettled (Inr ())]
      initialView) = [RemoveAccount (email a), Navigate ''/accounts'']"
    by (simp add: initialView_def initialDetail_def handleDelete_call_def
        handleDelete_resume_def)
  have handler: "handleDelete removeAccount (Some a) =
       RemoveAccount (email a)
         # (case removeAccount (email a) of Inl err \<Rightarrow> [] | Inr u \<Rightarrow> [Navigate ''/accounts''])"
    by (simp add: handleDelete_def split: sum.split)
  have single: "snd (runDelete (Some a) [RequestDelete] initialView) = []"
    by simp
  have cancel: "snd (deleteStep (Some a) CancelDelete v) = []"
    "mounted v \<and> showDelete (ui v) \<longrightarrow>
       \<not> showDelete (ui (fst (deleteStep (Some a) CancelDelete v)))"
    "runDelete (Some a) [RequestDelete, CancelDelete] initialView = (initialView, [])"
    by (simp_all add: initialView_def initialDetail_def)
  have left: "0 < removals v \<longrightarrow>
      \<not> mounted (fst (deleteStep (Some a) (RemovalSettled (Inr ())) v))"
    by simp
  have gone: "\<not> mounted v \<longrightarrow> filter isRemoval (snd (runDelete (Some a) xs v)) = []"
    using runDelete_unmounted [of v "Some a" xs] by blast
  show ?thesis
    using order confirm other runDelete_removals [of xs a v] many once handler single gone
      left cancel
    by blast
qed

theorem delete_flow_witness:
  "(\<exists>pre mid post.
      [RequestDelete, CancelDelete, RequestDelete, ConfirmDelete]
        = pre @ RequestDelete # mid @ ConfirmDelete # post
      \<and> CancelDelete \<notin> set mid)
   \<and> filter isRemoval (snd (runDelete (Some sampleAccount)
        [RequestDelete, CancelDelete, RequestDelete, ConfirmDelete] initialView)) =
       [RemoveAccount (JStr ''a@b.com'')]
   \<and> snd (runDelete (Some sampleAccount)
        [RequestDelete, ConfirmDelete, RemovalSettled (Inr ())] initialView) =
       [RemoveAccount (JStr ''a@b.com''), Navigate ''/accounts'']
   \<and> handleDelete (\<lambda>e. Inr ()) (Some sampleAccount) =
       [RemoveAccount (JStr ''a@b.com''), Navigate ''/accounts'']
   \<and> snd (runDelete (Some sampleAccount) [RequestDelete] initialView) = []"
proof -
  have e: "email sampleAccount = JStr ''a@b.com''"
    by (simp add: sampleAccount_def)
  have r: "filter isRemoval (snd (runDelete (Some sampleAccount)
        [RequestDelete, CancelDelete, RequestDelete, ConfirmDelete] initialView)) =
       [RemoveAccount (JStr ''a@b.com'')]"
    by (simp add: initialView_def initialDetail_def handleDelete_call_def e)
  from delete_flow [of sampleAccount
      "[RequestDelete, CancelDelete, RequestDelete, ConfirmDelete]" initialView RequestDelete
      0 "\<lambda>e. Inr ()"] r e
  show ?thesis by simp
qed

section \<open>The guards for an unknown account\<close>

lemma runDelete_no_account:
  "removals v = 0 \<Longrightarrow> runDelete None xs v = (v, [])"
proof (induction xs)
  case Nil
  show ?case by simp
next
  case (Cons x xs)
  then show ?case by (cases x) simp_all
qed

text \<open>
  Claim C10. When no account of the store has the decoded email of the route, the
  re-authenticate, delete and export handlers return at their first line: the state is
  unchanged and no call is made, neither to the authenticator nor to the store nor to
  the clipboard; no sequence of delete-flow events makes a call either.
\<close>

theorem unknown_account_guards:
  assumes "findAccount accounts d = None"
  shows "handleReauth authenticate updateAccount (findAccount accounts d) st = (st, [])
       \<and> handleDelete removeAccount (findAccount accounts d) = []
       \<and> handleExport P writeText (findAccount accounts d) st = (st, [])
       \<and> snd (runDelete (findAccount accounts d) xs initialView) = []"
  using assms
  by (simp add: handleReauth_def handleDelete_def handleExport_def runDelete_no_account
      initialView_def)

theorem unknown_account_guards_witness:
  "handleReauth (\<lambda>e p c k d. Inr refreshedAccount) (\<lambda>a. Inr ())
     (findAccount [sampleAccount] ''nobody@b.com'') initialDetail = (initialDetail, [])
   \<and> handleDelete (\<lambda>e. Inr ()) (findAccount [sampleAccount] ''nobody@b.com'') = []
   \<and> handleExport refPlatform (\<lambda>t. Inr ())
       (findAccount [sampleAccount] ''nobody@b.com'') initialDetail = (initialDetail, [])
   \<and> snd (runDelete (findAccount [sampleAccount] ''nobody@b.com'')
         [RequestDelete, ConfirmDelete, RemovalSettled (Inr ())] initialView) = []"
proof -
  have "findAccount [sampleAccount] ''nobody@b.com'' = None"
    by (simp add: findAccount_def sampleAccount_def)
  from unknown_account_guards [OF this, of "\<lambda>e p c k d. Inr refreshedAccount" "\<lambda>a. Inr ()"
      initialDetail "\<lambda>e. Inr ()" refPlatform "\<lambda>t. Inr ()"
      "[RequestDelete, ConfirmDelete, RemovalSettled (Inr ())]"]
  show ?thesis .
qed

section \<open>The reference reader inverts the reference writer\<close>

subsection \<open>Strings\<close>

lemma char_of_nat_eq: "(of_char c :: nat) = n \<Longrightarrow> c = char_of n"
  by (metis char_of_char)

lemma char_eqI: "(of_char c :: nat) = of_char d \<Longrightarrow> c = d"
  by simp

lemma of_char_lt_256: "(of_char c :: nat) < 256"
  by (cases c) (simp add: of_char_def)

lemma hexValue_hexDigit_upto: "map (\<lambda>n. hexValue (hexDigit n)) [0..<16] = map Some [0..<16]"
  by code_simp

lemma hexValue_hexDigit: "n < 16 \<Longrightarrow> hexValue (hexDigit n) = Some n"
  using hexValue_hexDigit_upto by (simp only: map_eq_conv set_upt atLeastLessThan_iff) simp

lemma unicodeEscape_low:
  assumes "n < 256"
  shows "unicodeEscape [CHR ''0'', CHR ''0'', hexDigit (n div 16), hexDigit n] = Some (char_of n)"
proof -
  have a: "hexValue (hexDigit (n div 16)) = Some (n div 16)"
    using assms by (intro hexValue_hexDigit) simp
  have b: "hexValue (hexDigit n) = Some (n mod 16)"
    using hexValue_hexDigit [of "n mod 16"] by (simp add: hexDigit_def)
  have z: "hexValue CHR ''0'' = Some 0" by (simp add: hexValue_def)
  show ?thesis by (simp add: unicodeEscape_def a b z)
qed

lemma readString_short:
  "unescape e = Some c \<Longrightarrow> e \<noteq> CHR ''u'' \<Longrightarrow> readString t = Some (s, rest) \<Longrightarrow>
   readString (CHR 0x5C # e # t) = Some (c # s, rest)"
  by simp

lemma readString_plain:
  "c \<noteq> CHR 0x22 \<Longrightarrow> c \<noteq> CHR 0x5C \<Longrightarrow> \<not> (of_char c :: nat) < 32 \<Longrightarrow>
   readString t = Some (s, rest) \<Longrightarrow> readString (c # t) = Some (c # s, rest)"
  by simp

lemma readString_unicode:
  "unicodeEscape [a, b, c', d] = Some c \<Longrightarrow> readString t = Some (s, rest) \<Longrightarrow>
   readString (CHR 0x5C # CHR ''u'' # a # b # c' # d # t) = Some (c # s, rest)"
  by simp

lemma readString_escapeUnit:
  assumes r: "readString t = Some (s, rest)"
  shows "readString (escapeUnit c @ t) = Some (c # s, rest)"
proof -
  define n where "n = (of_char c :: nat)"
  have c: "c = char_of n" using n_def by (simp add: char_of_nat_eq)
  have lt: "n < 256" using n_def of_char_lt_256 by simp
  consider "n = 8" | "n = 9" | "n = 10" | "n = 12" | "n = 13" | "n = 34" | "n = 92"
    | "n < 32" "n \<noteq> 8" "n \<noteq> 9" "n \<noteq> 10" "n \<noteq> 12" "n \<noteq> 13"
    | "32 \<le> n" "n \<noteq> 34" "n \<noteq> 92"
    by atomize_elim arith
  then show ?thesis
  proof cases
    case 1
    then have "c = CHR 0x08" using n_def by (intro char_eqI) simp
    then show ?thesis using readString_short [OF _ _ r, of "CHR ''b''" "CHR 0x08"]
      by (simp add: escapeUnit_def unescape_def)
  next
    case 2
    then have "c = CHR 0x09" using n_def by (intro char_eqI) simp
    then show ?thesis using readString_short [OF _ _ r, of "CHR ''t''" "CHR 0x09"]
      by (simp add: escapeUnit_def unescape_def)
  next
    case 3
    then have "c = CHR 0x0A" using n_def by (intro char_eqI) simp
    then show ?thesis using readString_short [OF _ _ r, of "CHR ''n''" "CHR 0x0A"]
      by (simp add: escapeUnit_def unescape_def)
  next
    case 4
    then have "c = CHR 0x0C" using n_def by (intro char_eqI) simp
    then show ?thesis using readString_short [OF _ _ r, of "CHR ''f''" "CHR 0x0C"]
      by (simp add: escapeUnit_def unescape_def)
  next
    case 5
    then have "c = CHR 0x0D" using n_def by (intro char_eqI) simp
    then show ?thesis using readString_short [OF _ _ r, of "CHR ''r''" "CHR 0x0D"]
      by (simp add: escapeUnit_def unescape_def)
  next
    case 6
    then have "c = CHR 0x22" using n_def by (intro char_eqI) simp
    then show ?thesis using readString_short [OF _ _ r, of "CHR 0x22" "CHR 0x22"]
      by (simp add: escapeUnit_def unescape_def)
  next
    case 7
    then have "c = CHR 0x5C" using n_def by (intro char_eqI) simp
    then show ?thesis using readString_short [OF _ _ r, of "CHR 0x5C" "CHR 0x5C"]
      by (simp add: escapeUnit_def unescape_def)
  next
    case 8
    have e: "escapeUnit c =
        [CHR 0x5C, CHR ''u'', CHR ''0'', CHR ''0'', hexDigit (n div 16), hexDigit n]"
      using 8 n_def by (simp add: escapeUnit_def Let_def)
    have "readString (CHR 0x5C # CHR ''u'' # CHR ''0'' # CHR ''0'' # hexDigit (n div 16)
        # hexDigit n # t) = Some (c # s, rest)"
      unfolding c by (rule readString_unicode [OF unicodeEscape_low [OF lt] r])
    then show ?thesis by (simp only: e append_Cons append_Nil)
  next
    case 9
    have e: "escapeUnit c = [c]"
      using 9 n_def by (simp add: escapeUnit_def Let_def)
    have "c \<noteq> CHR 0x22" "c \<noteq> CHR 0x5C" using 9 n_def by auto
    moreover have "\<not> (of_char c :: nat) < 32" using 9 n_def by simp
    ultimately show ?thesis using readString_plain [OF _ _ _ r, of c] by (simp add: e)
  qed
qed

lemma readString_quoted:
  "readString (concat (map escapeUnit s) @ CHR 0x22 # rest) = Some (s, rest)"
  by (induction s) (simp_all add: readString_escapeUnit)

subsection \<open>Numbers\<close>

lemma char_eq_iff_nat: "c = d \<longleftrightarrow> (of_char c :: nat) = of_char d"
  by simp

lemma digit_codes: "map of_char ''0123456789'' = [48..<58 :: nat]"
  by code_simp

lemma isDigit_iff: "isDigit c \<longleftrightarrow> 48 \<le> (of_char c :: nat) \<and> (of_char c :: nat) \<le> 57"
proof -
  have "isDigit c \<longleftrightarrow> (of_char c :: nat) \<in> of_char ` set ''0123456789''"
    unfolding isDigit_def by (rule inj_image_mem_iff [OF inj_of_char, symmetric])
  also have "of_char ` set ''0123456789'' = set [48..<58 :: nat]"
    unfolding digit_codes [symmetric] by (simp only: set_map)
  finally have "isDigit c \<longleftrightarrow> 48 \<le> (of_char c :: nat) \<and> (of_char c :: nat) < 58"
    by (simp only: set_upt atLeastLessThan_iff)
  then show ?thesis by arith
qed

lemma isDigit_char_of: "k < 10 \<Longrightarrow> isDigit (char_of (48 + k :: nat))"
  by (simp add: isDigit_iff)

lemma of_char_digit: "k < 10 \<Longrightarrow> (of_char (char_of (48 + k :: nat)) :: int) = 48 + int k"
proof -
  assume "k < 10"
  then have "(of_char (char_of (48 + k :: nat)) :: nat) = 48 + k" by simp
  then have "int (of_char (char_of (48 + k :: nat)) :: nat) = int (48 + k)" by simp
  then show ?thesis by (simp only: of_nat_of_char)
qed

lemma digitsValue_snoc: "digitsValue (ds @ [c]) = 10 * digitsValue ds + (of_char c - 48)"
  by (simp add: digitsValue_def)

lemma digitsValue_single: "digitsValue [c] = of_char c - 48"
  by (simp add: digitsValue_def)

lemma digitsOf_all: "list_all isDigit (digitsOf f n)"
  by (induction f n rule: digitsOf.induct) (simp_all add: isDigit_char_of)

lemma digitsOf_nonempty: "0 < f \<Longrightarrow> digitsOf f n \<noteq> []"
  by (cases f) simp_all

lemma digitsValue_digitsOf: "n < f \<Longrightarrow> digitsValue (digitsOf f n) = int n"
proof (induction f n rule: digitsOf.induct)
  case (1 n)
  then show ?case by simp
next
  case (2 f n)
  show ?case
  proof (cases "n < 10")
    case True
    then show ?thesis by (simp add: digitsValue_single of_char_digit)
  next
    case False
    then have "n div 10 < f" using "2.prems" by simp
    then have "digitsValue (digitsOf f (n div 10)) = int (n div 10)"
      using False "2.IH" by simp
    moreover have "(of_char (char_of (48 + n mod 10)) :: int) = 48 + int (n mod 10)"
      by (rule of_char_digit) simp
    ultimately show ?thesis using False by (simp add: digitsValue_snoc zdiv_int zmod_int)
  qed
qed

lemma digitsOf_leading: "n < f \<Longrightarrow> 0 < n \<Longrightarrow> hd (digitsOf f n) \<noteq> CHR ''0''"
proof (induction f n rule: digitsOf.induct)
  case (1 n)
  then show ?case by simp
next
  case (2 f n)
  show ?case
  proof (cases "n < 10")
    case True
    then show ?thesis using "2.prems" by (simp add: char_eq_iff_nat del: of_char_eq_iff)
  next
    case False
    then have a: "n div 10 < f" "0 < n div 10" using "2.prems" by simp_all
    then have "hd (digitsOf f (n div 10)) \<noteq> CHR ''0''" using False "2.IH" by simp
    moreover have "digitsOf f (n div 10) \<noteq> []" using a by (simp add: digitsOf_nonempty)
    ultimately show ?thesis using False by simp
  qed
qed

lemma digitsOf_shape:
  assumes "n < f"
  shows "length (digitsOf f n) = 1 \<or> hd (digitsOf f n) \<noteq> CHR ''0''"
proof (cases "n = 0")
  case True
  then show ?thesis using assms by (cases f) simp_all
next
  case False
  then show ?thesis using assms digitsOf_leading [of n f] by simp
qed

declare digitsOf.simps [simp del]

lemma takeWhile_digits:
  "list_all isDigit ds \<Longrightarrow> numberEnd rest \<Longrightarrow> takeWhile isDigit (ds @ rest) = ds"
  by (cases rest) (simp_all add: numberEnd_def list_all_iff takeWhile_append2)

lemma dropWhile_digits:
  "list_all isDigit ds \<Longrightarrow> numberEnd rest \<Longrightarrow> dropWhile isDigit (ds @ rest) = rest"
  by (cases rest) (simp_all add: numberEnd_def list_all_iff dropWhile_append2)

lemma readIntPart_digits:
  assumes "list_all isDigit ds" and "ds \<noteq> []" and "length ds = 1 \<or> hd ds \<noteq> CHR ''0''"
    and "numberEnd rest"
  shows "readIntPart (ds @ rest) = (ds, rest)"
proof (cases "take 1 (ds @ rest) = ''0''")
  case True
  then have "ds = ''0''" using assms(2,3) by (cases ds) auto
  then show ?thesis by (simp add: readIntPart_def)
next
  case False
  then show ?thesis
    using assms by (simp add: readIntPart_def takeWhile_digits dropWhile_digits)
qed

lemma readFraction_none: "numberEnd rest \<Longrightarrow> readFraction rest = Some ([], rest)"
  by (cases rest) (simp_all add: numberEnd_def readFraction_def)

lemma readExponent_none: "numberEnd rest \<Longrightarrow> readExponent rest = Some ((False, 0), rest)"
  by (cases rest) (simp_all add: numberEnd_def readExponent_def)

lemma readNumber_digits:
  assumes "list_all isDigit ds" and "ds \<noteq> []" and "length ds = 1 \<or> hd ds \<noteq> CHR ''0''"
    and "numberEnd rest"
  shows "readNumber (ds @ rest) = Some (real_of_int (digitsValue ds), rest)"
proof -
  obtain d ds' where ds: "ds = d # ds'" using assms(2) by (cases ds) auto
  have "isDigit d" using assms(1) ds by simp
  then have "d \<noteq> CHR ''-''" by (auto simp: isDigit_def)
  then have neg: "take 1 (ds @ rest) \<noteq> ''-''" using ds by simp
  show ?thesis
    using neg assms(2)
    by (simp add: readNumber_def readIntPart_digits [OF assms] readFraction_none [OF assms(4)]
        readExponent_none [OF assms(4)] digitsValue_def)
qed

lemma readNumber_negative:
  assumes "list_all isDigit ds" and "ds \<noteq> []" and "length ds = 1 \<or> hd ds \<noteq> CHR ''0''"
    and "numberEnd rest"
  shows "readNumber (CHR ''-'' # ds @ rest) = Some (- real_of_int (digitsValue ds), rest)"
  using assms(2)
  by (simp add: readNumber_def readIntPart_digits [OF assms] readFraction_none [OF assms(4)]
      readExponent_none [OF assms(4)] digitsValue_def)

lemma numberToString_nonneg:
  "\<not> r < 0 \<Longrightarrow> numberToString r = digitsOf (nat \<lceil>r\<rceil> + 1) (nat \<lfloor>r\<rfloor>)"
  by (simp add: numberToString_def)

lemma numberToString_neg:
  "r < 0 \<Longrightarrow> numberToString r = CHR ''-'' # digitsOf (nat \<lceil>- r\<rceil> + 1) (nat \<lfloor>- r\<rfloor>)"
  by (simp add: numberToString_def)

lemma readNumber_numberToString:
  assumes "r \<in> \<int>" and "numberEnd rest"
  shows "readNumber (numberToString r @ rest) = Some (r, rest)"
proof (cases "r < 0")
  case True
  define m where "m = nat \<lfloor>- r\<rfloor>"
  define f where "f = nat \<lceil>- r\<rceil> + 1"
  have lt: "m < f" unfolding m_def f_def by linarith
  have r: "- real m = r" using assms(1) True unfolding m_def by (auto elim!: Ints_cases)
  have t: "numberToString r = CHR ''-'' # digitsOf f m"
    unfolding m_def f_def by (rule numberToString_neg [OF True])
  have "readNumber (CHR ''-'' # digitsOf f m @ rest) =
      Some (- real_of_int (digitsValue (digitsOf f m)), rest)"
    using lt assms(2)
    by (intro readNumber_negative digitsOf_all digitsOf_nonempty digitsOf_shape) simp_all
  moreover have "- real_of_int (digitsValue (digitsOf f m)) = r"
    using r lt by (simp add: digitsValue_digitsOf)
  ultimately show ?thesis by (simp add: t)
next
  case False
  define m where "m = nat \<lfloor>r\<rfloor>"
  define f where "f = nat \<lceil>r\<rceil> + 1"
  have lt: "m < f" unfolding m_def f_def by linarith
  have r: "real m = r" using assms(1) False unfolding m_def by (auto elim!: Ints_cases)
  have t: "numberToString r = digitsOf f m"
    unfolding m_def f_def by (rule numberToString_nonneg [OF False])
  have "readNumber (digitsOf f m @ rest) =
      Some (real_of_int (digitsValue (digitsOf f m)), rest)"
    using lt assms(2)
    by (intro readNumber_digits digitsOf_all digitsOf_nonempty digitsOf_shape) simp_all
  moreover have "real_of_int (digitsValue (digitsOf f m)) = r"
    using r lt by (simp add: digitsValue_digitsOf)
  ultimately show ?thesis by (simp add: t)
qed

lemma cost_pos: "0 < cost j"
  by (cases j) simp_all

lemma isJsonSpace_indent [simp]: "list_all isJsonSpace (indentOf l)"
  by (simp add: indentOf_def isJsonSpace_def list_all_iff)

lemma isJsonSpace_newline [simp]: "isJsonSpace (CHR 0x0A)"
  by (simp add: isJsonSpace_def)

lemma isJsonSpace_space [simp]: "isJsonSpace (CHR '' '')"
  by (simp add: isJsonSpace_def)

lemma skipSpace_skip:
  "list_all isJsonSpace w \<Longrightarrow> \<not> isJsonSpace c \<Longrightarrow> skipSpace (w @ c # t) = c # t"
  by (simp add: skipSpace_def list_all_iff dropWhile_append2)

lemma skipSpace_skip':
  "list_all isJsonSpace w \<Longrightarrow> skipSpace (w @ t) = skipSpace t"
  by (simp add: skipSpace_def list_all_iff dropWhile_append2)

lemma skipSpace_keep: "\<not> isJsonSpace c \<Longrightarrow> skipSpace (c # t) = c # t"
  by (simp add: skipSpace_def)

lemma valueStart_not:
  assumes "valueStart c"
  shows "\<not> isJsonSpace c" "c \<noteq> CHR '']''" "c \<noteq> CHR ''}''" "c \<noteq> CHR '',''" "c \<noteq> CHR '':''"
  using assms by (auto simp: valueStart_def isJsonSpace_def isDigit_def)

lemma numberToString_start: "\<exists>c t. numberToString r = c # t \<and> (c = CHR ''-'' \<or> isDigit c)"
proof (cases "r < 0")
  case True
  then show ?thesis by (simp add: numberToString_neg)
next
  case False
  have "digitsOf (nat \<lceil>r\<rceil> + 1) (nat \<lfloor>r\<rfloor>) \<noteq> []" by (rule digitsOf_nonempty) simp
  then obtain c t where ct: "digitsOf (nat \<lceil>r\<rceil> + 1) (nat \<lfloor>r\<rfloor>) = c # t"
    by (cases "digitsOf (nat \<lceil>r\<rceil> + 1) (nat \<lfloor>r\<rfloor>)") auto
  have "list_all isDigit (c # t)" using digitsOf_all [of "nat \<lceil>r\<rceil> + 1" "nat \<lfloor>r\<rfloor>"] ct by simp
  then show ?thesis using False ct by (simp add: numberToString_nonneg)
qed

lemma wrapJSON_start: "\<exists>t. wrapJSON l r lvl parts = l # t"
  by (simp add: wrapJSON_def)

lemma serialize_start:
  "v \<noteq> JUndefined \<Longrightarrow> \<exists>c t. serializeJSON v lvl = c # t \<and> valueStart c"
proof (cases v)
  case (JNum r)
  then show ?thesis using numberToString_start [of r] by (auto simp: valueStart_def)
next
  case (JArr xs)
  then show ?thesis by (simp add: valueStart_def wrapJSON_def)
next
  case (JObj kvs)
  then show ?thesis by (simp add: valueStart_def wrapJSON_def)
qed (simp_all add: valueStart_def quoteJSONString_def)

lemma serialize_nonempty: "v \<noteq> JUndefined \<Longrightarrow> serializeJSON v lvl \<noteq> []"
  using serialize_start [of v lvl] by auto

lemma properJson_defined: "properJson j \<Longrightarrow> j \<noteq> JUndefined"
  by auto

lemma numberEnd_simps [simp]:
  "numberEnd []" "numberEnd (CHR '','' # t)" "numberEnd (CHR 0x0A # t)"
  "numberEnd (CHR '']'' # t)" "numberEnd (CHR ''}'' # t)"
  by (simp_all add: numberEnd_def isDigit_def)

lemma joinWith_Cons2: "joinWith sep (x # y # ys) = x @ sep @ joinWith sep (y # ys)"
  by (simp add: joinWith_def)

lemma joinWith_single: "joinWith sep [x] = x"
  by (simp add: joinWith_def)

lemma readsBackD:
  "readsBack j \<Longrightarrow> cost j \<le> n \<Longrightarrow> list_all isJsonSpace w \<Longrightarrow> numberEnd rest \<Longrightarrow>
   readValue n (w @ serializeJSON j lvl @ rest) = Some (j, rest)"
  by (simp add: readsBack_def)

lemma readElements_join:
  assumes "xs \<noteq> []" and "\<forall>x\<in>set xs. readsBack x"
    and "sum_list (map Suc (map cost xs)) \<le> n" and "list_all isJsonSpace w"
  shows "readElements n
           (w @ joinWith (CHR '','' # CHR 0x0A # indentOf l') (map (\<lambda>x. serializeJSON x l') xs)
              @ CHR 0x0A # indentOf lvl @ CHR '']'' # rest) = Some (xs, rest)"
  using assms
proof (induction xs arbitrary: n w rule: list_nonempty_induct)
  case (single x)
  then obtain m where n: "n = Suc m" and m: "cost x \<le> m" by (cases n) auto
  have v: "readValue m (w @ serializeJSON x l' @ CHR 0x0A # indentOf lvl @ CHR '']'' # rest) =
      Some (x, CHR 0x0A # indentOf lvl @ CHR '']'' # rest)"
    using single m by (intro readsBackD) simp_all
  have s: "skipSpace (CHR 0x0A # indentOf lvl @ CHR '']'' # rest) = CHR '']'' # rest"
    using skipSpace_skip [of "CHR 0x0A # indentOf lvl" "CHR '']''" rest]
    by (simp add: isJsonSpace_def)
  show ?case
    by (simp add: n joinWith_single v s)
next
  case (cons x xs)
  then obtain m where n: "n = Suc m" and m: "cost x \<le> m"
    and ms: "sum_list (map Suc (map cost xs)) \<le> m" by (cases n) auto
  obtain y ys where xs: "xs = y # ys" using cons.hyps by (cases xs) auto
  let ?tail = "joinWith (CHR '','' # CHR 0x0A # indentOf l') (map (\<lambda>x. serializeJSON x l') xs)
              @ CHR 0x0A # indentOf lvl @ CHR '']'' # rest"
  have v: "readValue m (w @ serializeJSON x l' @ CHR '','' # CHR 0x0A # indentOf l' @ ?tail) =
      Some (x, CHR '','' # CHR 0x0A # indentOf l' @ ?tail)"
    using cons.prems m by (intro readsBackD) simp_all
  have s: "skipSpace (CHR '','' # CHR 0x0A # indentOf l' @ ?tail) =
      CHR '','' # CHR 0x0A # indentOf l' @ ?tail"
    by (rule skipSpace_keep) (simp add: isJsonSpace_def)
  have r: "readElements m ((CHR 0x0A # indentOf l') @ ?tail) = Some (xs, rest)"
    using cons.prems ms by (intro cons.IH) simp_all
  have j: "joinWith (CHR '','' # CHR 0x0A # indentOf l')
        (serializeJSON x l' # map (\<lambda>x. serializeJSON x l') xs)
      = serializeJSON x l' @ CHR '','' # CHR 0x0A # indentOf l'
        @ joinWith (CHR '','' # CHR 0x0A # indentOf l') (map (\<lambda>x. serializeJSON x l') xs)"
    unfolding xs by (simp add: joinWith_Cons2)
  show ?case
    using r by (simp add: n j v s)
qed

lemma readMembers_join:
  assumes "kvs \<noteq> []" and "\<forall>kv\<in>set kvs. readsBack (snd kv)"
    and "sum_list (map (\<lambda>kv. Suc (cost (snd kv))) kvs) \<le> n" and "list_all isJsonSpace w"
  shows "readMembers n
           (w @ joinWith (CHR '','' # CHR 0x0A # indentOf l')
                  (map (\<lambda>kv. quoteJSONString (fst kv) @ CHR '':'' # CHR '' '' # serializeJSON (snd kv) l') kvs)
              @ CHR 0x0A # indentOf lvl @ CHR ''}'' # rest) = Some (kvs, rest)"
  using assms
proof (induction kvs arbitrary: n w rule: list_nonempty_induct)
  case (single kv)
  obtain k x where kv: "kv = (k, x)" by (cases kv)
  from single obtain m where n: "n = Suc m" and m: "cost x \<le> m" by (cases n) (auto simp: kv)
  let ?rest = "CHR 0x0A # indentOf lvl @ CHR ''}'' # rest"
  have q: "skipSpace (w @ quoteJSONString k @ CHR '':'' # CHR '' '' # serializeJSON x l' @ ?rest)
      = CHR 0x22 # concat (map escapeUnit k) @ CHR 0x22 # CHR '':'' # CHR '' ''
          # serializeJSON x l' @ ?rest"
    using skipSpace_skip [OF single(3), of "CHR 0x22"]
    by (simp add: quoteJSONString_def isJsonSpace_def)
  have c: "skipSpace (CHR '':'' # CHR '' '' # serializeJSON x l' @ ?rest) =
      CHR '':'' # CHR '' '' # serializeJSON x l' @ ?rest"
    by (rule skipSpace_keep) (simp add: isJsonSpace_def)
  have "readValue m ('' '' @ serializeJSON x l' @ ?rest) = Some (x, ?rest)"
    using single m kv by (intro readsBackD) simp_all
  then have v: "readValue m (CHR '' '' # serializeJSON x l' @ ?rest) = Some (x, ?rest)"
    by simp
  have s: "skipSpace ?rest = CHR ''}'' # rest"
    using skipSpace_skip [of "CHR 0x0A # indentOf lvl" "CHR ''}''" rest]
    by (simp add: isJsonSpace_def)
  show ?case
    by (simp add: n kv joinWith_single q c v s readString_quoted)
next
  case (cons kv kvs)
  obtain k x where kv: "kv = (k, x)" by (cases kv)
  from cons obtain m where n: "n = Suc m" and m: "cost x \<le> m"
    and ms: "sum_list (map (\<lambda>kv. Suc (cost (snd kv))) kvs) \<le> m" by (cases n) (auto simp: kv)
  obtain y ys where kvs: "kvs = y # ys" using cons.hyps by (cases kvs) auto
  let ?tail = "joinWith (CHR '','' # CHR 0x0A # indentOf l')
                  (map (\<lambda>kv. quoteJSONString (fst kv) @ CHR '':'' # CHR '' '' # serializeJSON (snd kv) l') kvs)
              @ CHR 0x0A # indentOf lvl @ CHR ''}'' # rest"
  let ?rest = "CHR '','' # CHR 0x0A # indentOf l' @ ?tail"
  have q: "skipSpace (w @ quoteJSONString k @ CHR '':'' # CHR '' '' # serializeJSON x l' @ ?rest)
      = CHR 0x22 # concat (map escapeUnit k) @ CHR 0x22 # CHR '':'' # CHR '' ''
          # serializeJSON x l' @ ?rest"
    using skipSpace_skip [OF cons.prems(3), of "CHR 0x22"]
    by (simp add: quoteJSONString_def isJsonSpace_def)
  have c: "skipSpace (CHR '':'' # CHR '' '' # serializeJSON x l' @ ?rest) =
      CHR '':'' # CHR '' '' # serializeJSON x l' @ ?rest"
    by (rule skipSpace_keep) (simp add: isJsonSpace_def)
  have "readValue m ('' '' @ serializeJSON x l' @ ?rest) = Some (x, ?rest)"
    using cons.prems m kv by (intro readsBackD) simp_all
  then have v: "readValue m (CHR '' '' # serializeJSON x l' @ ?rest) = Some (x, ?rest)"
    by simp
  have s: "skipSpace ?rest = ?rest"
    by (rule skipSpace_keep) (simp add: isJsonSpace_def)
  have r: "readMembers m ((CHR 0x0A # indentOf l') @ ?tail) = Some (kvs, rest)"
    using cons.prems ms by (intro cons.IH) simp_all
  have j: "joinWith (CHR '','' # CHR 0x0A # indentOf l')
        ((quoteJSONString k @ CHR '':'' # CHR '' '' # serializeJSON x l')
          # map (\<lambda>kv. quoteJSONString (fst kv) @ CHR '':'' # CHR '' '' # serializeJSON (snd kv) l') kvs)
      = quoteJSONString k @ CHR '':'' # CHR '' '' # serializeJSON x l' @ CHR '','' # CHR 0x0A
        # indentOf l'
        @ joinWith (CHR '','' # CHR 0x0A # indentOf l')
            (map (\<lambda>kv. quoteJSONString (fst kv) @ CHR '':'' # CHR '' '' # serializeJSON (snd kv) l') kvs)"
    unfolding kvs by (simp add: joinWith_Cons2)
  show ?case
    using r by (simp add: n kv j q c v s readString_quoted)
qed

lemma setProp_fresh: "k \<notin> fst ` set acc \<Longrightarrow> setProp acc k v = acc @ [(k, v)]"
  by (induction acc) auto

lemma foldl_setProp:
  "distinct (map fst (acc @ kvs)) \<Longrightarrow>
   foldl (\<lambda>acc kv. setProp acc (fst kv) (snd kv)) acc kvs = acc @ kvs"
proof (induction kvs arbitrary: acc)
  case Nil
  show ?case by simp
next
  case (Cons kv kvs)
  have "fst kv \<notin> fst ` set acc" using Cons.prems by auto
  then have "setProp acc (fst kv) (snd kv) = acc @ [kv]" by (simp add: setProp_fresh)
  moreover have "distinct (map fst ((acc @ [kv]) @ kvs))" using Cons.prems by simp
  ultimately show ?case using Cons.IH [of "acc @ [kv]"] by simp
qed

lemma makeObject_proper:
  "distinct (map fst kvs) \<Longrightarrow> orderProps kvs = kvs \<Longrightarrow> makeObject kvs = JObj kvs"
  using foldl_setProp [of "[]" kvs] by (simp add: makeObject_def)

lemma take1_join_start:
  assumes "list_all isJsonSpace w" and "\<not> isJsonSpace c"
  shows "skipSpace (w @ joinWith sep ((c # t) # ps) @ z) = c # t @ concat (map (\<lambda>p. sep @ p) ps) @ z"
  using skipSpace_skip [OF assms] by (simp add: joinWith_def)

lemma properJson_elements: "properJson (JArr xs) \<Longrightarrow> x \<in> set xs \<Longrightarrow> properJson x"
  by (simp add: list_all_iff)

lemma properJson_members: "properJson (JObj kvs) \<Longrightarrow> kv \<in> set kvs \<Longrightarrow> properJson (snd kv)"
  by (auto simp: list_all_iff)

lemma array_parts:
  assumes "\<forall>x\<in>set xs. x \<noteq> JUndefined"
  shows "map (\<lambda>f. if f l = [] then ''null'' else f l) (map serializeJSON xs) =
         map (\<lambda>x. serializeJSON x l) xs"
  using assms by (simp add: serialize_nonempty)

lemma object_parts:
  assumes "\<forall>kv\<in>set kvs. snd kv \<noteq> JUndefined"
  shows "map (\<lambda>kf. quoteJSONString (fst kf) @ '': '' @ snd kf l)
           (filter (\<lambda>kf. snd kf l \<noteq> []) (map (map_prod id serializeJSON) kvs)) =
         map (\<lambda>kv. quoteJSONString (fst kv) @ CHR '':'' # CHR '' '' # serializeJSON (snd kv) l) kvs"
  using assms by (induction kvs) (auto simp: serialize_nonempty)

lemma readValue_serialize: "properJson j \<Longrightarrow> readsBack j"
proof (induction j)
  case JUndefined
  then show ?case by simp
next
  case JNull
  show ?case
    unfolding readsBack_def
  proof (intro allI impI)
    fix n w rest lvl
    assume "cost JNull \<le> n" and w: "list_all isJsonSpace w"
    then obtain m where n: "n = Suc m" by (cases n) auto
    have "skipSpace (w @ CHR ''n'' # ''ull'' @ rest) = CHR ''n'' # ''ull'' @ rest"
      by (rule skipSpace_skip [OF w]) (simp add: isJsonSpace_def)
    then show "readValue n (w @ serializeJSON JNull lvl @ rest) = Some (JNull, rest)"
      by (simp add: n)
  qed
next
  case (JBool b)
  show ?case
    unfolding readsBack_def
  proof (intro allI impI)
    fix n w rest lvl
    assume "cost (JBool b) \<le> n" and w: "list_all isJsonSpace w"
    then obtain m where n: "n = Suc m" by (cases n) auto
    have t: "skipSpace (w @ CHR ''t'' # ''rue'' @ rest) = CHR ''t'' # ''rue'' @ rest"
      by (rule skipSpace_skip [OF w]) (simp add: isJsonSpace_def)
    have f: "skipSpace (w @ CHR ''f'' # ''alse'' @ rest) = CHR ''f'' # ''alse'' @ rest"
      by (rule skipSpace_skip [OF w]) (simp add: isJsonSpace_def)
    show "readValue n (w @ serializeJSON (JBool b) lvl @ rest) = Some (JBool b, rest)"
      using t f by (cases b) (simp_all add: n)
  qed
next
  case (JNum r)
  show ?case
    unfolding readsBack_def
  proof (intro allI impI)
    fix n w rest lvl
    assume "cost (JNum r) \<le> n" and w: "list_all isJsonSpace w" and e: "numberEnd rest"
    then obtain m where n: "n = Suc m" by (cases n) auto
    obtain c t where ct: "numberToString r = c # t" and c: "c = CHR ''-'' \<or> isDigit c"
      using numberToString_start [of r] by blast
    have ns: "\<not> isJsonSpace c" using c by (auto simp: isJsonSpace_def isDigit_def)
    have s: "skipSpace (w @ c # t @ rest) = c # t @ rest"
      by (rule skipSpace_skip [OF w ns])
    have k: "c \<noteq> CHR ''{''" "c \<noteq> CHR ''[''" "c \<noteq> CHR 0x22" "c \<noteq> CHR ''n''" "c \<noteq> CHR ''t''"
      "c \<noteq> CHR ''f''"
      using c by (auto simp: isDigit_def)
    have "r \<in> \<int>" using JNum by (simp, metis Ints_of_int)
    then have "readNumber (c # t @ rest) = Some (r, rest)"
      using readNumber_numberToString [OF _ e, of r] ct by simp
    then show "readValue n (w @ serializeJSON (JNum r) lvl @ rest) = Some (JNum r, rest)"
      using k by (simp add: n ct s)
  qed
next
  case (JStr x)
  show ?case
    unfolding readsBack_def
  proof (intro allI impI)
    fix n w rest lvl
    assume "cost (JStr x) \<le> n" and w: "list_all isJsonSpace w"
    then obtain m where n: "n = Suc m" by (cases n) auto
    have s: "skipSpace (w @ CHR 0x22 # concat (map escapeUnit x) @ CHR 0x22 # rest) =
        CHR 0x22 # concat (map escapeUnit x) @ CHR 0x22 # rest"
      by (rule skipSpace_skip [OF w]) (simp add: isJsonSpace_def)
    show "readValue n (w @ serializeJSON (JStr x) lvl @ rest) = Some (JStr x, rest)"
      by (simp add: n quoteJSONString_def s readString_quoted)
  qed
next
  case (JArr xs)
  have p: "\<forall>x\<in>set xs. properJson x" using JArr.prems by (simp add: list_all_iff)
  then have rb: "\<forall>x\<in>set xs. readsBack x" using JArr.IH by blast
  have d: "\<forall>x\<in>set xs. x \<noteq> JUndefined" using p by auto
  show ?case
    unfolding readsBack_def
  proof (intro allI impI)
    fix n w rest lvl
    assume c: "cost (JArr xs) \<le> n" and w: "list_all isJsonSpace w"
    then obtain m where n: "n = Suc m" and m: "sum_list (map Suc (map cost xs)) \<le> m"
      by (cases n) auto
    show "readValue n (w @ serializeJSON (JArr xs) lvl @ rest) = Some (JArr xs, rest)"
    proof (cases xs)
      case Nil
      have s: "skipSpace (w @ CHR ''['' # CHR '']'' # rest) = CHR ''['' # CHR '']'' # rest"
        by (rule skipSpace_skip [OF w]) (simp add: isJsonSpace_def)
      have s2: "skipSpace (CHR '']'' # rest) = CHR '']'' # rest"
        by (rule skipSpace_keep) (simp add: isJsonSpace_def)
      show ?thesis by (simp add: Nil n wrapJSON_def s s2)
    next
      case (Cons x0 xs')
      then have ne: "xs \<noteq> []" by simp
      let ?sep = "CHR '','' # CHR 0x0A # indentOf (Suc lvl)"
      let ?body = "joinWith ?sep (map (\<lambda>x. serializeJSON x (Suc lvl)) xs)
          @ CHR 0x0A # indentOf lvl @ CHR '']'' # rest"
      have ser: "serializeJSON (JArr xs) lvl @ rest =
          CHR ''['' # (CHR 0x0A # indentOf (Suc lvl)) @ ?body"
        unfolding serializeJSON.simps array_parts [OF d] wrapJSON_def using ne by simp
      have s: "skipSpace (w @ CHR ''['' # (CHR 0x0A # indentOf (Suc lvl)) @ ?body) =
          CHR ''['' # (CHR 0x0A # indentOf (Suc lvl)) @ ?body"
        by (rule skipSpace_skip [OF w]) (simp add: isJsonSpace_def)
      obtain c0 t0 where c0: "serializeJSON x0 (Suc lvl) = c0 # t0" and v0: "valueStart c0"
        using serialize_start [of x0 "Suc lvl"] d Cons by auto
      have "skipSpace ((CHR 0x0A # indentOf (Suc lvl)) @ joinWith ?sep
            ((c0 # t0) # map (\<lambda>x. serializeJSON x (Suc lvl)) xs')
            @ CHR 0x0A # indentOf lvl @ CHR '']'' # rest) =
          c0 # t0 @ concat (map (\<lambda>p. ?sep @ p) (map (\<lambda>x. serializeJSON x (Suc lvl)) xs'))
            @ CHR 0x0A # indentOf lvl @ CHR '']'' # rest"
        by (rule take1_join_start) (simp_all add: valueStart_not [OF v0])
      then have first: "take 1 (skipSpace ((CHR 0x0A # indentOf (Suc lvl)) @ ?body)) \<noteq> '']''"
        using valueStart_not [OF v0] by (simp add: Cons c0)
      have elems: "readElements m ((CHR 0x0A # indentOf (Suc lvl)) @ ?body) = Some (xs, rest)"
        using rb m Cons by (intro readElements_join) simp_all
      have "readValue (Suc m) (w @ CHR ''['' # (CHR 0x0A # indentOf (Suc lvl)) @ ?body) =
          Some (JArr xs, rest)"
        using first elems by (simp add: s del: append_Cons Cons_eq_append_conv)
      then show ?thesis by (simp only: n ser)
    qed
  qed
next
  case (JObj kvs)
  have p: "\<forall>kv\<in>set kvs. properJson (snd kv)" using JObj.prems by (auto simp: list_all_iff)
  have rb: "\<forall>kv\<in>set kvs. readsBack (snd kv)"
  proof
    fix kv assume kv: "kv \<in> set kvs"
    have "snd kv \<in> Basic_BNFs.snds kv" by (cases kv) simp
    then show "readsBack (snd kv)" using JObj.IH [OF kv] p kv by blast
  qed
  have d: "\<forall>kv\<in>set kvs. snd kv \<noteq> JUndefined" using p by auto
  have mk: "makeObject kvs = JObj kvs" using JObj.prems by (simp add: makeObject_proper)
  show ?case
    unfolding readsBack_def
  proof (intro allI impI)
    fix n w rest lvl
    assume c: "cost (JObj kvs) \<le> n" and w: "list_all isJsonSpace w"
    then obtain m where n: "n = Suc m"
      and m: "sum_list (map (\<lambda>kv. Suc (cost (snd kv))) kvs) \<le> m"
      by (cases n) (auto simp: comp_def)
    show "readValue n (w @ serializeJSON (JObj kvs) lvl @ rest) = Some (JObj kvs, rest)"
    proof (cases kvs)
      case Nil
      have s: "skipSpace (w @ CHR ''{'' # CHR ''}'' # rest) = CHR ''{'' # CHR ''}'' # rest"
        by (rule skipSpace_skip [OF w]) (simp add: isJsonSpace_def)
      have s2: "skipSpace (CHR ''}'' # rest) = CHR ''}'' # rest"
        by (rule skipSpace_keep) (simp add: isJsonSpace_def)
      show ?thesis by (simp add: Nil n wrapJSON_def s s2)
    next
      case (Cons kv0 kvs')
      then have ne: "kvs \<noteq> []" by simp
      let ?sep = "CHR '','' # CHR 0x0A # indentOf (Suc lvl)"
      let ?part = "\<lambda>kv. quoteJSONString (fst kv) @ CHR '':'' # CHR '' ''
          # serializeJSON (snd kv) (Suc lvl)"
      let ?body = "joinWith ?sep (map ?part kvs) @ CHR 0x0A # indentOf lvl @ CHR ''}'' # rest"
      have ser: "serializeJSON (JObj kvs) lvl @ rest =
          CHR ''{'' # (CHR 0x0A # indentOf (Suc lvl)) @ ?body"
        unfolding serializeJSON.simps object_parts [OF d] wrapJSON_def using ne by simp
      have s: "skipSpace (w @ CHR ''{'' # (CHR 0x0A # indentOf (Suc lvl)) @ ?body) =
          CHR ''{'' # (CHR 0x0A # indentOf (Suc lvl)) @ ?body"
        by (rule skipSpace_skip [OF w]) (simp add: isJsonSpace_def)
      obtain t0 where c0: "?part kv0 = CHR 0x22 # t0"
        by (simp add: quoteJSONString_def)
      have "skipSpace ((CHR 0x0A # indentOf (Suc lvl)) @ joinWith ?sep
            ((CHR 0x22 # t0) # map ?part kvs') @ CHR 0x0A # indentOf lvl @ CHR ''}'' # rest) =
          CHR 0x22 # t0 @ concat (map (\<lambda>p. ?sep @ p) (map ?part kvs'))
            @ CHR 0x0A # indentOf lvl @ CHR ''}'' # rest"
        by (rule take1_join_start) (simp_all add: isJsonSpace_def)
      then have first: "take 1 (skipSpace ((CHR 0x0A # indentOf (Suc lvl)) @ ?body)) \<noteq> ''}''"
        using c0 by (simp add: Cons)
      have membs: "readMembers m ((CHR 0x0A # indentOf (Suc lvl)) @ ?body) = Some (kvs, rest)"
        using rb m Cons by (intro readMembers_join) simp_all
      have "readValue (Suc m) (w @ CHR ''{'' # (CHR 0x0A # indentOf (Suc lvl)) @ ?body) =
          Some (JObj kvs, rest)"
        using first membs mk by (simp add: s del: append_Cons Cons_eq_append_conv)
      then show ?thesis by (simp only: n ser)
    qed
  qed
qed

subsection \<open>The text depends on the denoted value only\<close>

lemma serialize_undefined_iff: "serializeJSON v lvl = [] \<longleftrightarrow> v = JUndefined"
  using serialize_nonempty [of v lvl] by (cases v) auto

lemma serialize_image: "serializeJSON (json_image v) = serializeJSON v"
proof (induction v)
  case (JArr xs)
  have el: "\<And>x l. x \<in> set xs \<Longrightarrow>
      (if serializeJSON (if json_image x = JUndefined then JNull else json_image x) l = []
       then ''null''
       else serializeJSON (if json_image x = JUndefined then JNull else json_image x) l) =
      (if serializeJSON x l = [] then ''null'' else serializeJSON x l)"
  proof -
    fix x l assume "x \<in> set xs"
    then have e: "serializeJSON (json_image x) = serializeJSON x" by (rule JArr.IH)
    show "(if serializeJSON (if json_image x = JUndefined then JNull else json_image x) l = []
       then ''null''
       else serializeJSON (if json_image x = JUndefined then JNull else json_image x) l) =
      (if serializeJSON x l = [] then ''null'' else serializeJSON x l)"
    proof (cases "json_image x = JUndefined")
      case True
      then have "serializeJSON x l = []" using e [symmetric] by simp
      then show ?thesis using True by simp
    next
      case False
      then show ?thesis using e by simp
    qed
  qed
  have "\<And>l. map (\<lambda>f. if f l = [] then ''null'' else f l)
        (map serializeJSON (map (\<lambda>v. if v = JUndefined then JNull else v) (map json_image xs)))
      = map (\<lambda>f. if f l = [] then ''null'' else f l) (map serializeJSON xs)"
  proof -
    fix l
    have "map (\<lambda>x. if serializeJSON (if json_image x = JUndefined then JNull else json_image x) l
            = [] then ''null''
          else serializeJSON (if json_image x = JUndefined then JNull else json_image x) l) xs
        = map (\<lambda>x. if serializeJSON x l = [] then ''null'' else serializeJSON x l) xs"
      by (rule map_cong [OF refl]) (rule el)
    then show "map (\<lambda>f. if f l = [] then ''null'' else f l)
        (map serializeJSON (map (\<lambda>v. if v = JUndefined then JNull else v) (map json_image xs)))
      = map (\<lambda>f. if f l = [] then ''null'' else f l) (map serializeJSON xs)"
      by (simp only: map_map comp_def)
  qed
  then show ?case by (intro ext) (simp del: map_map)
next
  case (JObj kvs)
  have "\<And>l. filter (\<lambda>kf. snd kf l \<noteq> [])
        (map (map_prod id serializeJSON)
          (filter (\<lambda>kv. snd kv \<noteq> JUndefined) (map (map_prod id json_image) kvs)))
      = filter (\<lambda>kf. snd kf l \<noteq> []) (map (map_prod id serializeJSON) kvs)"
  proof -
    fix l
    have "\<And>ys. set ys \<subseteq> set kvs \<Longrightarrow>
        filter (\<lambda>kf. snd kf l \<noteq> [])
          (map (map_prod id serializeJSON)
            (filter (\<lambda>kv. snd kv \<noteq> JUndefined) (map (map_prod id json_image) ys)))
        = filter (\<lambda>kf. snd kf l \<noteq> []) (map (map_prod id serializeJSON) ys)"
    proof -
      fix ys show "set ys \<subseteq> set kvs \<Longrightarrow>
        filter (\<lambda>kf. snd kf l \<noteq> [])
          (map (map_prod id serializeJSON)
            (filter (\<lambda>kv. snd kv \<noteq> JUndefined) (map (map_prod id json_image) ys)))
        = filter (\<lambda>kf. snd kf l \<noteq> []) (map (map_prod id serializeJSON) ys)"
      proof (induction ys)
        case Nil
        show ?case by simp
      next
        case (Cons kv ys)
        obtain k v where kv: "kv = (k, v)" by (cases kv)
        have "kv \<in> set kvs" using Cons.prems by simp
        moreover have "v \<in> Basic_BNFs.snds kv" by (simp add: kv)
        ultimately have e: "serializeJSON (json_image v) = serializeJSON v" by (rule JObj.IH)
        have u: "json_image v = JUndefined \<Longrightarrow> serializeJSON v l = []"
          using e [symmetric] by simp
        show ?case using Cons e u by (simp add: kv serialize_undefined_iff)
      qed
    qed
    then show "filter (\<lambda>kf. snd kf l \<noteq> [])
        (map (map_prod id serializeJSON)
          (filter (\<lambda>kv. snd kv \<noteq> JUndefined) (map (map_prod id json_image) kvs)))
      = filter (\<lambda>kf. snd kf l \<noteq> []) (map (map_prod id serializeJSON) kvs)"
      by simp
  qed
  then show ?case by (intro ext) (simp del: map_map filter_map)
qed simp_all

subsection \<open>Enough fuel\<close>

lemma joinWith_length:
  assumes "sep \<noteq> []"
  shows "sum_list (map length ps) + (length ps - 1) \<le> length (joinWith sep ps)"
proof (cases ps)
  case Nil
  then show ?thesis by (simp add: joinWith_def)
next
  case (Cons y ys)
  have "sum_list (map length ys) + length ys \<le> length (concat (map (\<lambda>z. sep @ z) ys))"
  proof (induction ys)
    case Nil
    show ?case by simp
  next
    case (Cons z zs)
    have "1 \<le> length sep" using assms by (cases sep) auto
    then show ?case using Cons by simp
  qed
  then show ?thesis using Cons by (simp add: joinWith_def)
qed

lemma wrapJSON_length:
  "2 + sum_list (map length ps) + (length ps - 1) \<le> length (wrapJSON l r lvl ps)"
proof (cases "ps = []")
  case True
  then show ?thesis by (simp add: wrapJSON_def)
next
  case False
  have "sum_list (map length ps) + (length ps - 1)
      \<le> length (joinWith (CHR '','' # CHR 0x0A # indentOf (Suc lvl)) ps)"
    by (rule joinWith_length) simp
  then show ?thesis using False by (simp add: wrapJSON_def)
qed

lemma cost_bound: "properJson j \<Longrightarrow> cost j \<le> 2 * length (serializeJSON j lvl)"
proof (induction j arbitrary: lvl)
  case JUndefined
  then show ?case by simp
next
  case (JNum r)
  have "numberToString r \<noteq> []" using numberToString_start [of r] by auto
  then have "1 \<le> length (numberToString r)" by (cases "numberToString r") auto
  then show ?case by simp
next
  case (JStr s)
  show ?case by (simp add: quoteJSONString_def)
next
  case (JArr xs)
  have p: "\<forall>x\<in>set xs. properJson x" using JArr.prems by (simp add: list_all_iff)
  then have d: "\<forall>x\<in>set xs. x \<noteq> JUndefined" by auto
  have "\<And>ys. set ys \<subseteq> set xs \<Longrightarrow>
      sum_list (map Suc (map cost ys))
        \<le> 2 * sum_list (map length (map (\<lambda>x. serializeJSON x (Suc lvl)) ys)) + length ys"
  proof -
    fix ys show "set ys \<subseteq> set xs \<Longrightarrow>
      sum_list (map Suc (map cost ys))
        \<le> 2 * sum_list (map length (map (\<lambda>x. serializeJSON x (Suc lvl)) ys)) + length ys"
    proof (induction ys)
      case Nil
      show ?case by simp
    next
      case (Cons y ys)
      have "cost y \<le> 2 * length (serializeJSON y (Suc lvl))"
        using Cons.prems p by (intro JArr.IH) simp_all
      then show ?case using Cons by simp
    qed
  qed
  then have s: "sum_list (map Suc (map cost xs))
      \<le> 2 * sum_list (map length (map (\<lambda>x. serializeJSON x (Suc lvl)) xs)) + length xs"
    by simp
  have w: "2 + sum_list (map length (map (\<lambda>x. serializeJSON x (Suc lvl)) xs))
        + (length (map (\<lambda>x. serializeJSON x (Suc lvl)) xs) - 1)
      \<le> length (wrapJSON CHR ''['' CHR '']'' lvl (map (\<lambda>x. serializeJSON x (Suc lvl)) xs))"
    by (rule wrapJSON_length)
  have "serializeJSON (JArr xs) lvl =
      wrapJSON CHR ''['' CHR '']'' lvl (map (\<lambda>x. serializeJSON x (Suc lvl)) xs)"
    unfolding serializeJSON.simps array_parts [OF d] ..
  then show ?case using s w by simp
next
  case (JObj kvs)
  have p: "\<forall>kv\<in>set kvs. properJson (snd kv)" using JObj.prems by (auto simp: list_all_iff)
  then have d: "\<forall>kv\<in>set kvs. snd kv \<noteq> JUndefined" by auto
  let ?part = "\<lambda>kv. quoteJSONString (fst kv) @ CHR '':'' # CHR '' ''
      # serializeJSON (snd kv) (Suc lvl)"
  have "\<And>ys. set ys \<subseteq> set kvs \<Longrightarrow>
      sum_list (map (\<lambda>kv. Suc (cost (snd kv))) ys)
        \<le> 2 * sum_list (map length (map ?part ys)) + length ys"
  proof -
    fix ys show "set ys \<subseteq> set kvs \<Longrightarrow>
      sum_list (map (\<lambda>kv. Suc (cost (snd kv))) ys)
        \<le> 2 * sum_list (map length (map ?part ys)) + length ys"
    proof (induction ys)
      case Nil
      show ?case by simp
    next
      case (Cons y ys)
      have "y \<in> set kvs" using Cons.prems by simp
      moreover have "snd y \<in> Basic_BNFs.snds y" by (cases y) simp
      ultimately have "cost (snd y) \<le> 2 * length (serializeJSON (snd y) (Suc lvl))"
        using p by (intro JObj.IH) simp_all
      then show ?case using Cons by simp
    qed
  qed
  then have s: "sum_list (map (\<lambda>kv. Suc (cost (snd kv))) kvs)
      \<le> 2 * sum_list (map length (map ?part kvs)) + length kvs"
    by simp
  have w: "2 + sum_list (map length (map ?part kvs)) + (length (map ?part kvs) - 1)
      \<le> length (wrapJSON CHR ''{'' CHR ''}'' lvl (map ?part kvs))"
    by (rule wrapJSON_length)
  have "serializeJSON (JObj kvs) lvl = wrapJSON CHR ''{'' CHR ''}'' lvl (map ?part kvs)"
    unfolding serializeJSON.simps object_parts [OF d] ..
  then show ?case using s w by (simp add: comp_def)
qed simp_all

subsection \<open>Reading back what was written\<close>

theorem refParse_refStringify:
  assumes "properJson (json_image v)"
  shows "refParse (refStringify v) = Some (json_image v)"
proof -
  let ?s = "serializeJSON (json_image v) 0"
  have s: "refStringify v = ?s" by (simp add: refStringify_def serialize_image)
  have "cost (json_image v) \<le> 2 * length ?s + 2"
    using cost_bound [OF assms, of 0] by simp
  then have "readValue (2 * length ?s + 2) ([] @ ?s @ []) = Some (json_image v, [])"
    using assms by (intro readsBackD readValue_serialize) simp_all
  then show ?thesis by (simp add: refParse_def s skipSpace_def)
qed

subsection \<open>Exported accounts\<close>

lemma orderProps_no_index:
  "\<forall>kv\<in>set kvs. \<not> isIndexKey (fst kv) \<Longrightarrow> orderProps kvs = kvs"
  by (simp add: orderProps_def filter_id_conv filter_empty_conv)

lemma properJson_object_image:
  assumes "distinct (map fst kvs)"
    and "\<forall>kv\<in>set kvs. \<not> isIndexKey (fst kv)"
    and "\<forall>kv\<in>set kvs. jsonSafe (snd kv)"
  shows "properJson (json_image (JObj kvs))"
proof -
  let ?kvs = "filter (\<lambda>kv. snd kv \<noteq> JUndefined) (map (map_prod id json_image) kvs)"
  have "distinct (map fst (map (map_prod id json_image) kvs))"
    using assms(1) by (simp add: comp_def)
  then have d: "distinct (map fst ?kvs)" by (rule distinct_map_filter)
  have "\<forall>kv\<in>set ?kvs. \<not> isIndexKey (fst kv)" using assms(2) by auto
  then have o: "orderProps ?kvs = ?kvs" by (rule orderProps_no_index)
  have p: "\<forall>kv\<in>set ?kvs. properJson (snd kv)"
    using assms(3) by (auto simp: jsonSafe_def)
  show ?thesis using d o p by (simp add: list_all_iff del: distinct_map)
qed

lemma account_keys_no_index:
  "\<forall>kv\<in>set [(''email'', a1), (''password'', a2), (''appleId'', a3), (''store'', a4),
      (''firstName'', a5), (''lastName'', a6), (''passwordToken'', a7),
      (''directoryServicesIdentifier'', a8), (''cookies'', a9), (''deviceIdentifier'', a10),
      (''pod'', a11)]. \<not> isIndexKey (fst kv)"
  by (simp add: isIndexKey_def isDigit_def)

lemma account_proper: "accountSafe a \<Longrightarrow> properJson (json_image (account_obj a))"
  unfolding account_obj_def
  by (rule properJson_object_image [OF _ account_keys_no_index]) (simp_all add: accountSafe_def)

lemma trim_nonblank: "\<not> isWhiteSpace c \<Longrightarrow> trim (c # t) \<noteq> []"
  by (simp add: trim_def dropWhile_eq_Nil_conv)

lemma refStringify_object: "\<exists>t. refStringify (JObj kvs) = CHR ''{'' # t"
  by (simp add: refStringify_def wrapJSON_def)

text \<open>
  The reference platform meets the requirement of export followed by import for every
  account that is safe to export.
\<close>

lemma refPlatform_exportReadable:
  assumes "accountSafe a"
  shows "exportReadable refPlatform (account_obj a)"
proof -
  obtain t where t: "refStringify (account_obj a) = CHR ''{'' # t"
    using refStringify_object by (auto simp: account_obj_def)
  have "trim (refStringify (account_obj a)) \<noteq> []"
    unfolding t by (rule trim_nonblank) (simp add: isWhiteSpace_def)
  moreover have "refParse (refStringify (account_obj a)) = Some (json_image (account_obj a))"
    using assms by (intro refParse_refStringify account_proper)
  ultimately show ?thesis by (simp add: exportReadable_def refPlatform_def)
qed

section \<open>Properties of import and export\<close>

lemma trim_null: "trim ''null'' \<noteq> []"
  by (simp add: trim_def isWhiteSpace_def)

lemma refParse_null: "refParse ''null'' = Some JNull"
  by code_simp




lemma missingOrInvalid_string [simp]: "missingOrInvalid (JStr s) = (s = [])"
  by (simp add: missingOrInvalid_def)

text \<open>
  The failure modes of import in the order they are checked, for a parsed value other
  than \<^verbatim>\<open>null\<close>: each reports its own error and returns after the clipboard read, before
  any call to the store.
\<close>

lemma import_failure_modes:
  "(trim text = [] \<longrightarrow>
      handleImport P (Inr text) addAccount st =
        (st\<lparr>importing := False, error := Some ''Clipboard is empty.'', success := None\<rparr>,
         [ReadText]))
 \<and> (trim text \<noteq> [] \<and> JSON_parse P text = None \<longrightarrow>
      handleImport P (Inr text) addAccount st =
        (st\<lparr>importing := False, error := Some ''Invalid JSON in clipboard.'',
            success := None\<rparr>, [ReadText]))
 \<and> (trim text \<noteq> [] \<and> JSON_parse P text = Some data \<and> \<not> nullish data
      \<and> missingOrInvalid (getProp data ''email'') \<longrightarrow>
      handleImport P (Inr text) addAccount st =
        (st\<lparr>importing := False,
            error := Some ''Invalid account data: missing or invalid email.'',
            success := None\<rparr>, [ReadText]))
 \<and> (trim text \<noteq> [] \<and> JSON_parse P text = Some data \<and> \<not> nullish data
      \<and> \<not> missingOrInvalid (getProp data ''email'')
      \<and> missingOrInvalid (getProp data ''password'') \<longrightarrow>
      handleImport P (Inr text) addAccount st =
        (st\<lparr>importing := False,
            error := Some ''Invalid account data: missing or invalid password.'',
            success := None\<rparr>, [ReadText]))
 \<and> (trim text \<noteq> [] \<and> JSON_parse P text = Some data \<and> \<not> nullish data
      \<and> \<not> missingOrInvalid (getProp data ''email'')
      \<and> \<not> missingOrInvalid (getProp data ''password'')
      \<and> missingOrInvalid (getProp data ''deviceIdentifier'') \<longrightarrow>
      handleImport P (Inr text) addAccount st =
        (st\<lparr>importing := False,
            error := Some ''Invalid account data: missing or invalid device identifier.'',
            success := None\<rparr>, [ReadText]))"
  by (simp add: handleImport_def importCatch_def)

text \<open>
  Claim C4 does not hold of \<^verbatim>\<open>handleImport\<close> at the clipboard text \<^verbatim>\<open>null\<close>. The text is
  not blank and is valid JSON, and the value it denotes has no email that is a non-empty
  string, so the claim has import report the missing-email error. The handler reads
  \<^verbatim>\<open>data.email\<close> without testing the parsed value first; the read throws, and the error
  shown is the engine's message for the \<^verbatim>\<open>TypeError\<close>.
\<close>

theorem import_null_text:
  "JSON_parse refPlatform ''null'' = Some JNull
   \<and> typeof JNull = TObject
   \<and> handleImport refPlatform (Inr ''null'') (\<lambda>a. Inr ()) initialList =
       (initialList\<lparr>error := Some (refNullAccessMessage ''email'')\<rparr>, [ReadText])
   \<and> refNullAccessMessage ''email'' \<noteq> ''Invalid account data: missing or invalid email.''"
  using trim_null refParse_null
  by (simp add: handleImport_def importCatch_def nullish_def refPlatform_def initialList_def
      refNullAccessMessage_def)

text \<open>
  Claim C9. When the clipboard text is \<^verbatim>\<open>null\<close>, which \<^verbatim>\<open>JSON.parse\<close> reads as the value
  \<^verbatim>\<open>null\<close>, import shows the message of the \<^verbatim>\<open>TypeError\<close> thrown by the first property
  read: the error goes through the generic branch of the \<^verbatim>\<open>catch\<close> block (it is no
  \<^verbatim>\<open>SyntaxError\<close>), no validation error is set, and the only call made is the clipboard
  read, so the store is not touched.
\<close>

theorem import_null:
  assumes "JSON_parse P ''null'' = Some JNull"
  shows "handleImport P (Inr ''null'') addAccount st =
           (st\<lparr>importing := False, error := Some (nullAccessMessage P ''email''),
               success := None\<rparr>, [ReadText])
       \<and> \<not> isSyntaxError (TypeError (nullAccessMessage P ''email''))
       \<and> filter storeMutation (snd (handleImport P (Inr ''null'') addAccount st)) = []"
  using assms trim_null
  by (simp add: handleImport_def importCatch_def nullish_def)

theorem import_null_witness:
  "handleImport refPlatform (Inr ''null'') (\<lambda>a. Inl (OtherError ''Storage failed''))
     initialList =
     (initialList\<lparr>error := Some (refNullAccessMessage ''email'')\<rparr>, [ReadText])
   \<and> refNullAccessMessage ''email'' \<noteq> ''Invalid JSON in clipboard.''
   \<and> refNullAccessMessage ''email'' \<noteq> ''Invalid account data: missing or invalid email.''"
  using import_null [of refPlatform "\<lambda>a. Inl (OtherError ''Storage failed'')" initialList]
    refParse_null
  by (simp add: refPlatform_def initialList_def refNullAccessMessage_def)




subsection \<open>Export followed by import\<close>

lemma map_of_defined:
  "distinct (map fst kvs) \<Longrightarrow>
   map_of (filter (\<lambda>kv. snd kv \<noteq> JUndefined) kvs) k =
     (case map_of kvs k of None \<Rightarrow> None | Some v \<Rightarrow> if v = JUndefined then None else Some v)"
proof (induction kvs)
  case Nil
  show ?case by simp
next
  case (Cons kv kvs)
  then show ?case
    by (cases kv) (auto simp: map_of_eq_None_iff image_iff split: option.splits)
qed

lemma getProp_json_image:
  assumes "distinct (map fst kvs)"
  shows "getProp (json_image (JObj kvs)) k = json_image (getProp (JObj kvs) k)"
proof -
  have m: "map_of (map (map_prod id json_image) kvs) k = map_option json_image (map_of kvs k)"
    by (induction kvs) auto
  have d: "distinct (map fst (map (map_prod id json_image) kvs))"
    using assms by (simp add: comp_def)
  show ?thesis
    by (simp add: map_of_defined [OF d] m split: option.split)
qed

lemma getProp_exported:
  "getProp (json_image (account_obj a)) k = json_image (getProp (account_obj a) k)"
  unfolding account_obj_def by (rule getProp_json_image) simp

lemma json_image_nullish [simp]: "nullish (json_image v) = nullish v"
  by (cases v) (simp_all add: nullish_def)

lemma json_image_isArray [simp]: "isArray (json_image v) = isArray v"
  by (cases v) simp_all

lemma exported_fields:
  "getProp (account_obj a) ''email'' = email a"
  "getProp (account_obj a) ''password'' = password a"
  "getProp (account_obj a) ''appleId'' = appleId a"
  "getProp (account_obj a) ''store'' = store a"
  "getProp (account_obj a) ''firstName'' = firstName a"
  "getProp (account_obj a) ''lastName'' = lastName a"
  "getProp (account_obj a) ''passwordToken'' = passwordToken a"
  "getProp (account_obj a) ''directoryServicesIdentifier'' = directoryServicesIdentifier a"
  "getProp (account_obj a) ''cookies'' = cookies a"
  "getProp (account_obj a) ''deviceIdentifier'' = deviceIdentifier a"
  "getProp (account_obj a) ''pod'' = pod a"
  by (simp_all add: account_obj_def)

lemma imported_exported:
  "importedAccount (json_image (account_obj a)) =
     \<lparr>email = json_image (email a),
      password = json_image (password a),
      appleId = coalesce (json_image (appleId a)) (json_image (email a)),
      store = coalesce (json_image (store a)) (JStr []),
      firstName = coalesce (json_image (firstName a)) (JStr []),
      lastName = coalesce (json_image (lastName a)) (JStr []),
      passwordToken = coalesce (json_image (passwordToken a)) (JStr []),
      directoryServicesIdentifier =
        coalesce (json_image (directoryServicesIdentifier a)) (JStr []),
      cookies = (if isArray (cookies a) then json_image (cookies a) else JArr []),
      deviceIdentifier = json_image (deviceIdentifier a),
      pod = json_image (pod a)\<rparr>"
  by (simp add: importedAccount_def getProp_exported exported_fields)

lemma import_of_export:
  assumes "exportReadable P (account_obj a)"
    and "email a = JStr e" and "e \<noteq> []"
    and "password a = JStr p" and "p \<noteq> []"
    and "deviceIdentifier a = JStr d" and "d \<noteq> []"
  shows "filter storeMutation
           (snd (handleImport P (Inr (JSON_stringify P (account_obj a))) addAccount st)) =
         [AddAccount (importedAccount (json_image (account_obj a)))]"
proof -
  have obj: "\<not> nullish (json_image (account_obj a))"
    by (simp add: account_obj_def nullish_def)
  have valid:
    "\<not> missingOrInvalid (getProp (json_image (account_obj a)) ''email'')"
    "\<not> missingOrInvalid (getProp (json_image (account_obj a)) ''password'')"
    "\<not> missingOrInvalid (getProp (json_image (account_obj a)) ''deviceIdentifier'')"
    using assms(2-7) by (simp_all add: getProp_exported exported_fields)
  show ?thesis
    using assms(1) obj valid
    by (simp add: exportReadable_def handleImport_def Let_def split: sum.split option.split)
qed

lemma imported_defaults:
  assumes "email a = JStr e" and "password a = JStr p" and "deviceIdentifier a = JStr d"
  shows "email (importedAccount (json_image (account_obj a))) = email a
       \<and> password (importedAccount (json_image (account_obj a))) = password a
       \<and> deviceIdentifier (importedAccount (json_image (account_obj a))) = deviceIdentifier a
       \<and> (appleId a = JUndefined \<longrightarrow>
            appleId (importedAccount (json_image (account_obj a))) = email a)
       \<and> (store a = JUndefined \<longrightarrow>
            store (importedAccount (json_image (account_obj a))) = JStr [])
       \<and> (firstName a = JUndefined \<longrightarrow>
            firstName (importedAccount (json_image (account_obj a))) = JStr [])
       \<and> (lastName a = JUndefined \<longrightarrow>
            lastName (importedAccount (json_image (account_obj a))) = JStr [])
       \<and> (passwordToken a = JUndefined \<longrightarrow>
            passwordToken (importedAccount (json_image (account_obj a))) = JStr [])
       \<and> (directoryServicesIdentifier a = JUndefined \<longrightarrow>
            directoryServicesIdentifier (importedAccount (json_image (account_obj a))) = JStr [])
       \<and> (cookies a = JUndefined \<longrightarrow>
            cookies (importedAccount (json_image (account_obj a))) = JArr [])
       \<and> (pod a = JUndefined \<longrightarrow>
            pod (importedAccount (json_image (account_obj a))) = JUndefined)"
  using assms by (simp add: imported_exported coalesce_def nullish_def)

lemma handleExport_text:
  "snd (handleExport P writeText (Some a) st) = [WriteText (JSON_stringify P (account_obj a))]"
  by (simp add: handleExport_def Let_def split: sum.split)

text \<open>
  The text the reference platform exports for the sample account: one property per line,
  indented by two spaces, in the order of the record, the unset \<^verbatim>\<open>pod\<close> left out.
\<close>

lemma export_sample:
  "refStringify (account_obj sampleAccount) =
     concat (map (\<lambda>l. l @ [CHR 0x0A])
       [''{'',
        ''  '' @ quoted ''email'' @ '': '' @ quoted ''a@b.com'' @ '','',
        ''  '' @ quoted ''password'' @ '': '' @ quoted ''x'' @ '','',
        ''  '' @ quoted ''appleId'' @ '': '' @ quoted ''a@b.com'' @ '','',
        ''  '' @ quoted ''store'' @ '': '' @ quoted ''143441'' @ '','',
        ''  '' @ quoted ''firstName'' @ '': '' @ quoted ''Ann'' @ '','',
        ''  '' @ quoted ''lastName'' @ '': '' @ quoted ''Lee'' @ '','',
        ''  '' @ quoted ''passwordToken'' @ '': '' @ quoted ''t1'' @ '','',
        ''  '' @ quoted ''directoryServicesIdentifier'' @ '': '' @ quoted ''1001'' @ '','',
        ''  '' @ quoted ''cookies'' @ '': []'' @ '','',
        ''  '' @ quoted ''deviceIdentifier'' @ '': '' @ quoted ''D1''])
     @ ''}''"
  by code_simp

lemma import_sample:
  "refParse (refStringify (account_obj sampleAccount)) =
     Some (json_image (account_obj sampleAccount))"
  by code_simp

text \<open>
  Claim C6. Take an account whose email, password and deviceIdentifier are non-empty
  strings, on a platform whose \<^verbatim>\<open>JSON.parse\<close> reads the exported text back as the value
  it denotes. Export writes the 2-space-indented serialization of the whole record to
  the clipboard, and import run on that text hands the store a record with the same
  email, password and deviceIdentifier, in which every optional field that the text
  leaves out (a field that is \<^verbatim>\<open>undefined\<close> in memory) has its default: appleId the
  email, the five optional strings empty, cookies the empty sequence, pod unset.
\<close>

theorem export_import_roundtrip:
  assumes "exportReadable P (account_obj a)"
    and "email a = JStr e" and "e \<noteq> []"
    and "password a = JStr p" and "p \<noteq> []"
    and "deviceIdentifier a = JStr d" and "d \<noteq> []"
  shows "snd (handleExport P writeText (Some a) st0) =
           [WriteText (JSON_stringify P (account_obj a))]
       \<and> filter storeMutation
           (snd (handleImport P (Inr (JSON_stringify P (account_obj a))) addAccount st)) =
           [AddAccount (importedAccount (json_image (account_obj a)))]
       \<and> email (importedAccount (json_image (account_obj a))) = email a
       \<and> password (importedAccount (json_image (account_obj a))) = password a
       \<and> deviceIdentifier (importedAccount (json_image (account_obj a))) = deviceIdentifier a
       \<and> (appleId a = JUndefined \<longrightarrow>
            appleId (importedAccount (json_image (account_obj a))) = email a)
       \<and> (store a = JUndefined \<longrightarrow>
            store (importedAccount (json_image (account_obj a))) = JStr [])
       \<and> (firstName a = JUndefined \<longrightarrow>
            firstName (importedAccount (json_image (account_obj a))) = JStr [])
       \<and> (lastName a = JUndefined \<longrightarrow>
            lastName (importedAccount (json_image (account_obj a))) = JStr [])
       \<and> (passwordToken a = JUndefined \<longrightarrow>
            passwordToken (importedAccount (json_image (account_obj a))) = JStr [])
       \<and> (directoryServicesIdentifier a = JUndefined \<longrightarrow>
            directoryServicesIdentifier (importedAccount (json_image (account_obj a))) = JStr [])
       \<and> (cookies a = JUndefined \<longrightarrow>
            cookies (importedAccount (json_image (account_obj a))) = JArr [])
       \<and> (pod a = JUndefined \<longrightarrow>
            pod (importedAccount (json_image (account_obj a))) = JUndefined)"
  using handleExport_text [of P writeText a st0] import_of_export [OF assms, of addAccount st]
    imported_defaults [OF assms(2,4,6)]
  by blast

lemma sampleAccount_safe: "accountSafe sampleAccount"
  by (simp add: accountSafe_def sampleAccount_def jsonSafe_def)

theorem export_import_roundtrip_witness:
  "filter storeMutation (snd (handleImport refPlatform
      (Inr (JSON_stringify refPlatform (account_obj sampleAccount))) (\<lambda>a. Inr ())
      initialList)) =
     [AddAccount (importedAccount (json_image (account_obj sampleAccount)))]
   \<and> email (importedAccount (json_image (account_obj sampleAccount))) = JStr ''a@b.com''
   \<and> pod (importedAccount (json_image (account_obj sampleAccount))) = JUndefined"
proof -
  have r: "exportReadable refPlatform (account_obj sampleAccount)"
    by (rule refPlatform_exportReadable [OF sampleAccount_safe])
  have f: "email sampleAccount = JStr ''a@b.com''" "password sampleAccount = JStr ''x''"
    "deviceIdentifier sampleAccount = JStr ''D1''" "pod sampleAccount = JUndefined"
    by (simp_all add: sampleAccount_def)
  have n: "''a@b.com'' \<noteq> []" "''x'' \<noteq> []" "''D1'' \<noteq> []" by simp_all
  from export_import_roundtrip [OF r f(1) n(1) f(2) n(2) f(3) n(3),
      of "\<lambda>t. Inr ()" initialDetail "\<lambda>a. Inr ()" initialList] f
  show ?thesis by simp
qed

text \<open>
  On the reference platform the requirement on the platform is met, so the round trip
  holds for every account that is safe to export and has the three required fields.
\<close>

lemma export_import_reference:
  assumes "accountSafe a"
    and "email a = JStr e" and "e \<noteq> []"
    and "password a = JStr p" and "p \<noteq> []"
    and "deviceIdentifier a = JStr d" and "d \<noteq> []"
  shows "filter storeMutation
           (snd (handleImport refPlatform (Inr (refStringify (account_obj a))) addAccount st)) =
           [AddAccount (importedAccount (json_image (account_obj a)))]
       \<and> email (importedAccount (json_image (account_obj a))) = email a
       \<and> password (importedAccount (json_image (account_obj a))) = password a
       \<and> deviceIdentifier (importedAccount (json_image (account_obj a))) = deviceIdentifier a"
  using import_of_export [OF refPlatform_exportReadable [OF assms(1)] assms(2-7), of addAccount st]
    imported_defaults [OF assms(2,4,6)]
  by (simp add: refPlatform_def)

end
